theory Spec2Isabelle
  imports Main "HOL-Library.Word" "HOL-Library.AList"
begin

unbundle bit_operations_syntax

section \<open>Opcode table (disasm.ts, lines 5-35)\<close>

text \<open>
  The bytecode is a \<open>Uint8Array\<close>: every element is an 8-bit unsigned value. A read of
  the array out of its range, or at the index \<open>undefined\<close>, gives JavaScript's
  \<open>undefined\<close>; such reads are modelled as \<open>None\<close>, a byte read as \<open>Some b\<close>.
\<close>

type_synonym byte = "8 word"

abbreviation STOP :: byte where "STOP \<equiv> 0x00"
abbreviation EQ :: byte where "EQ \<equiv> 0x14"
abbreviation ISZERO :: byte where "ISZERO \<equiv> 0x15"
abbreviation CALLVALUE :: byte where "CALLVALUE \<equiv> 0x34"
abbreviation JUMPI :: byte where "JUMPI \<equiv> 0x57"
abbreviation JUMPDEST :: byte where "JUMPDEST \<equiv> 0x5b"
abbreviation PUSH1 :: byte where "PUSH1 \<equiv> 0x60"
abbreviation PUSH4 :: byte where "PUSH4 \<equiv> 0x63"
abbreviation PUSH32 :: byte where "PUSH32 \<equiv> 0x7f"
abbreviation DUP1 :: byte where "DUP1 \<equiv> 0x80"
abbreviation LOG1 :: byte where "LOG1 \<equiv> 0xa1"
abbreviation LOG4 :: byte where "LOG4 \<equiv> 0xa4"

definition pushWidth :: "byte \<Rightarrow> nat" where
  "pushWidth instruction =
     (if instruction < PUSH1 \<or> instruction > PUSH32 then 0
      else unat instruction - unat PUSH1 + 1)"

definition isPush :: "byte \<Rightarrow> bool" where
  "isPush instruction = (\<not> (instruction < PUSH1 \<or> instruction > PUSH32))"

definition isLog :: "byte \<Rightarrow> bool" where
  "isLog instruction = (instruction \<ge> LOG1 \<and> instruction \<le> LOG4)"

text \<open>
  \<open>isPush\<close> applied to a value that may be \<open>undefined\<close>, as \<open>isPush(code.at(-2))\<close> does.
  In JavaScript both \<open>undefined < n\<close> and \<open>undefined > n\<close> are false, so the negated
  disjunction of \<open>isPush\<close> is true at \<open>undefined\<close>.
\<close>

fun isPushU :: "byte option \<Rightarrow> bool" where
  "isPushU None = True"
| "isPushU (Some instruction) = isPush instruction"

section \<open>The byte helpers of the ethers library that the source calls\<close>

text \<open>
  The source calls \<open>ethers.utils.arrayify\<close>, \<open>hexlify\<close> and \<open>zeroPad\<close> (ethers version 5,
  package \<open>@ethersproject/bytes\<close>) and JavaScript's \<open>parseInt\<close>. Their code is not part of
  the repository; each is modelled here on the arguments the source passes, with the
  errors it throws as values.
\<close>

datatype error = HexDataOddLength | InvalidArrayifyValue | ValueOutOfRange

definition isHexDigit :: "char \<Rightarrow> bool" where
  "isHexDigit c = (c \<in> set ''0123456789abcdefABCDEF'')"

definition hexValue :: "char \<Rightarrow> nat" where
  "hexValue c =
     (if c \<in> set ''0123456789'' then of_char c - 48
      else if c \<in> set ''abcdef'' then of_char c - 87
      else of_char c - 55)"

fun hexPairs :: "string \<Rightarrow> byte list" where
  "hexPairs (a # b # rest) = of_nat (16 * hexValue a + hexValue b) # hexPairs rest"
| "hexPairs rest = []"

text \<open>
  \<open>ethers.utils.arrayify(value, { allowMissingPrefix: true })\<close> on a string: the prefix
  \<open>0x\<close> is added when missing; the string must then match \<open>/^0x[0-9A-Fa-f]*$/\<close> and
  hold an even number of digits, each pair read by \<open>parseInt(pair, 16)\<close>.
\<close>

definition arrayify :: "string \<Rightarrow> error + byte list" where
  "arrayify v =
     (let v' = (if take 2 v \<noteq> ''0x'' then ''0x'' @ v else v) in
      if take 2 v' = ''0x'' \<and> list_all isHexDigit (drop 2 v')
      then (let hex = drop 2 v' in
            if odd (length hex) then Inl HexDataOddLength else Inr (hexPairs hex))
      else Inl InvalidArrayifyValue)"

definition HexCharacters :: string where
  "HexCharacters = ''0123456789abcdef''"

text \<open>
  \<open>ethers.utils.hexlify\<close> on bytes: \<open>0x\<close>, then for each byte \<open>v\<close> the characters
  \<open>HexCharacters[(v & 0xf0) >> 4]\<close> and \<open>HexCharacters[v & 0x0f]\<close>.
\<close>

definition hexByte :: "byte \<Rightarrow> string" where
  "hexByte v = [HexCharacters ! unat (drop_bit 4 (v AND 0xf0)), HexCharacters ! unat (v AND 0x0f)]"

definition hexlify :: "byte list \<Rightarrow> string" where
  "hexlify v = ''0x'' @ concat (map hexByte v)"

text \<open>
  \<open>ethers.utils.zeroPad(value, length)\<close>: throws "value out of range" when the value is
  longer than \<open>length\<close>, else copies it to the right end of a zeroed array.
\<close>

definition zeroPad :: "byte list \<Rightarrow> nat \<Rightarrow> error + byte list" where
  "zeroPad v len =
     (if length v > len then Inl ValueOutOfRange
      else Inr (replicate (len - length v) 0 @ v))"

text \<open>
  \<open>parseInt(s, 16)\<close> on a string written by \<open>hexlify\<close>: the prefix \<open>0x\<close> is skipped, the
  longest run of hexadecimal digits is read, and no digit at all gives \<open>NaN\<close> (here
  \<open>None\<close>). The value is kept as an exact integer: a JavaScript number rounds integers
  from \<open>2^53\<close> on, to a number that is still at least \<open>2^53\<close>, and the extractor only
  uses the value as a key compared with byte offsets of the bytecode.
\<close>

definition parseInt16 :: "string \<Rightarrow> nat option" where
  "parseInt16 s =
     (let digits = takeWhile isHexDigit (if take 2 s = ''0x'' \<or> take 2 s = ''0X'' then drop 2 s else s) in
      if digits = [] then None
      else Some (foldl (\<lambda>acc c. 16 * acc + hexValue c) 0 digits))"

section \<open>BytecodeIter (disasm.ts, lines 41-124)\<close>

record BytecodeIter =
  bytecode :: "byte list"
  nextStep :: nat
  nextPos :: nat
  posBuffer :: "nat list"
  posBufferSize :: nat

text \<open>
  The constructor, after \<open>arrayify\<close> has read the string. \<open>config.bufferSize || 1\<close> is 1
  when the size is missing or 0.
\<close>

definition iterOf :: "byte list \<Rightarrow> nat option \<Rightarrow> BytecodeIter" where
  "iterOf bs bufferSize =
     \<lparr> bytecode = bs, nextStep = 0, nextPos = 0, posBuffer = [],
       posBufferSize = (case bufferSize of None \<Rightarrow> 1 | Some k \<Rightarrow> if k = 0 then 1 else k) \<rparr>"

definition newBytecodeIter :: "string \<Rightarrow> nat option \<Rightarrow> error + BytecodeIter" where
  "newBytecodeIter s bufferSize =
     (case arrayify s of Inl e \<Rightarrow> Inl e | Inr bs \<Rightarrow> Inr (iterOf bs bufferSize))"

definition hasMore :: "BytecodeIter \<Rightarrow> bool" where
  "hasMore c = (length (bytecode c) > nextPos c)"

text \<open>\<open>next()\<close>: the opcode returned and the cursor after the call.\<close>

definition iterNext :: "BytecodeIter \<Rightarrow> byte \<times> BytecodeIter" where
  "iterNext c =
     (if length (bytecode c) \<le> nextPos c then (STOP, c)
      else
        let instruction = bytecode c ! nextPos c;
            width = pushWidth instruction;
            buf = (if length (posBuffer c) \<ge> posBufferSize c then tl (posBuffer c) else posBuffer c)
        in (instruction,
            c\<lparr> posBuffer := buf @ [nextPos c],
               nextStep := nextStep c + 1,
               nextPos := nextPos c + (1 + width) \<rparr>))"

text \<open>The cursor after \<open>m\<close> calls of \<open>next()\<close>.\<close>

fun advance :: "nat \<Rightarrow> BytecodeIter \<Rightarrow> BytecodeIter" where
  "advance 0 c = c"
| "advance (Suc m) c = snd (iterNext (advance m c))"

definition step :: "BytecodeIter \<Rightarrow> int" where
  "step c = int (nextStep c) - 1"

definition pos :: "BytecodeIter \<Rightarrow> int" where
  "pos c = int (nextPos c) - 1"

text \<open>An array read \<open>xs[i]\<close>: \<open>undefined\<close> out of range.\<close>

definition nthJS :: "'a list \<Rightarrow> int \<Rightarrow> 'a option" where
  "nthJS xs i = (if 0 \<le> i \<and> i < int (length xs) then Some (xs ! nat i) else None)"

text \<open>
  \<open>at\<close>: a negative argument goes through \<open>posBuffer\<close>; when that read is \<open>undefined\<close>,
  so is \<open>bytecode[undefined]\<close>.
\<close>

definition at :: "BytecodeIter \<Rightarrow> int \<Rightarrow> byte option" where
  "at c posOrRelativeStep =
     (if posOrRelativeStep < 0 then
        (case nthJS (posBuffer c) (int (length (posBuffer c)) + posOrRelativeStep) of
           None \<Rightarrow> None
         | Some p \<Rightarrow> nthJS (bytecode c) (int p))
      else nthJS (bytecode c) posOrRelativeStep)"

text \<open>\<open>Uint8Array.slice(a, b)\<close> for \<open>0 \<le> a\<close>: the elements from \<open>a\<close> up to \<open>b\<close>, clipped.\<close>

definition slice :: "'a list \<Rightarrow> nat \<Rightarrow> nat \<Rightarrow> 'a list" where
  "slice xs a b = take (b - a) (drop a xs)"

text \<open>
  \<open>valueAt\<close>: when the position or the instruction read there is \<open>undefined\<close>, the
  width is \<open>NaN\<close>, the end of the slice is \<open>NaN\<close>, which \<open>slice\<close> reads as 0: the
  result is empty.
\<close>

definition valueAt :: "BytecodeIter \<Rightarrow> int \<Rightarrow> byte list" where
  "valueAt c posOrRelativeStep =
     (case (if posOrRelativeStep < 0
            then nthJS (posBuffer c) (int (length (posBuffer c)) + posOrRelativeStep)
            else Some (nat posOrRelativeStep)) of
        None \<Rightarrow> []
      | Some p \<Rightarrow>
          (case nthJS (bytecode c) (int p) of
             None \<Rightarrow> []
           | Some instruction \<Rightarrow> slice (bytecode c) (p + 1) (p + 1 + pushWidth instruction)))"

definition iterValue :: "BytecodeIter \<Rightarrow> byte list" where
  "iterValue c = valueAt c (- 1)"

text \<open>
  The instructions of a bytecode from a byte offset on, each with the offset of its first
  byte: the stepping rule of \<open>next()\<close>, one plus the push width, run to the end.
\<close>

function decode :: "byte list \<Rightarrow> nat \<Rightarrow> (nat \<times> byte) list" where
  "decode bs p =
     (if p < length bs then (p, bs ! p) # decode bs (p + (1 + pushWidth (bs ! p))) else [])"
  by pat_completeness auto
termination
  by (relation "measure (\<lambda>(bs, p). length bs - p)") auto

section \<open>abiFromBytecode (disasm.ts, lines 126-220)\<close>

text \<open>
  Modelled from the spec: the entry types \<open>ABIFunction\<close> and \<open>ABIEvent\<close> of \<open>./abi\<close>,
  a function entry with its selector and payable flag, an event entry with its hash.
\<close>

datatype ABIEntry = ABIFunction string bool | ABIEvent string

record ExtractState =
  abi :: "ABIEntry list"
  jumps :: "(string \<times> nat option) list"
  dests :: "int \<rightharpoonup> int"
  notPayable :: "int \<rightharpoonup> int"
  lastPush32 :: "byte list"
  code :: BytecodeIter

definition initState :: "byte list \<Rightarrow> ExtractState" where
  "initState bs =
     \<lparr> abi = [], jumps = [], dests = Map.empty, notPayable = Map.empty,
       lastPush32 = [], code = iterOf bs (Some 4) \<rparr>"

text \<open>
  One pass through the body of the \<open>while\<close> loop. \<open>jumps\<close> is an object with string
  keys: a write to a key it has keeps the key's place, a new key goes last
  (\<open>AList.update\<close>).
\<close>

definition loopBody :: "ExtractState \<Rightarrow> error + ExtractState" where
  "loopBody s =
     (let (inst, c) = iterNext (code s);
          p = pos c;
          st = step c
      in
      if inst = PUSH32 then Inr (s\<lparr> code := c, lastPush32 := iterValue c \<rparr>)
      else if isLog inst \<and> length (lastPush32 s) > 0 then
        Inr (s\<lparr> code := c, abi := abi s @ [ABIEvent (hexlify (lastPush32 s))] \<rparr>)
      else if inst = JUMPDEST then
        (if at c (p + 1) = Some CALLVALUE \<and> at c (p + 2) = Some DUP1 \<and> at c (p + 3) = Some ISZERO
         then Inr (s\<lparr> code := c, dests := (dests s)(p \<mapsto> st), notPayable := (notPayable s)(p \<mapsto> st) \<rparr>)
         else Inr (s\<lparr> code := c, dests := (dests s)(p \<mapsto> st) \<rparr>))
      else if at c (- 1) = Some JUMPI \<and> isPushU (at c (- 2)) \<and> at c (- 3) = Some EQ \<and> isPushU (at c (- 4)) then
        (case zeroPad (valueAt c (- 4)) 4 of
           Inl e \<Rightarrow> Inl e
         | Inr v \<Rightarrow>
             let selector = hexlify v;
                 offsetDest = parseInt16 (hexlify (valueAt c (- 2)))
             in Inr (s\<lparr> code := c, jumps := AList.update selector offsetDest (jumps s) \<rparr>))
      else Inr (s\<lparr> code := c \<rparr>))"

lemma loopBody_measure:
  assumes "hasMore (code s)" and "loopBody s = Inr s'"
  shows "length (bytecode (code s')) - nextPos (code s') < length (bytecode (code s)) - nextPos (code s)"
  using assms
  by (auto simp: loopBody_def hasMore_def iterNext_def Let_def split: if_splits sum.splits)

function run :: "ExtractState \<Rightarrow> error + ExtractState" where
  "run s =
     (if hasMore (code s)
      then (case loopBody s of Inl e \<Rightarrow> Inl e | Inr s' \<Rightarrow> run s')
      else Inr s)"
  by pat_completeness auto
termination
  by (relation "measure (\<lambda>s. length (bytecode (code s)) - nextPos (code s))")
     (auto simp: loopBody_measure)

text \<open>The states of the extractor at the head of its loop, for a bytecode.\<close>

inductive reachable :: "byte list \<Rightarrow> ExtractState \<Rightarrow> bool" for bs :: "byte list" where
  start: "reachable bs (initState bs)"
| iterate: "reachable bs s \<Longrightarrow> hasMore (code s) \<Longrightarrow> loopBody s = Inr s' \<Longrightarrow> reachable bs s'"

text \<open>
  The final loop over \<open>Object.keys(jumps)\<close>. \<open>!notPayable[jumps[selector]]\<close> is true when
  the key is absent (\<open>undefined\<close>, also for the key \<open>NaN\<close>) and when the stored step is 0.
\<close>

definition payableOf :: "(int \<rightharpoonup> int) \<Rightarrow> nat option \<Rightarrow> bool" where
  "payableOf np d =
     (case d of
        None \<Rightarrow> True
      | Some n \<Rightarrow> (case np (int n) of None \<Rightarrow> True | Some stp \<Rightarrow> stp = 0))"

definition finish :: "ExtractState \<Rightarrow> ABIEntry list" where
  "finish s =
     abi s @ map (\<lambda>(selector, d). ABIFunction selector (payableOf (notPayable s) d)) (jumps s)"

definition abiFromBytes :: "byte list \<Rightarrow> error + ABIEntry list" where
  "abiFromBytes bs = (case run (initState bs) of Inl e \<Rightarrow> Inl e | Inr s \<Rightarrow> Inr (finish s))"

definition abiFromBytecode :: "string \<Rightarrow> error + ABIEntry list" where
  "abiFromBytecode s = (case arrayify s of Inl e \<Rightarrow> Inl e | Inr bs \<Rightarrow> abiFromBytes bs)"

text \<open>The bytes \<open>CALLVALUE DUP1 ISZERO\<close> stand right behind the offset \<open>p\<close>.\<close>

definition guarded :: "byte list \<Rightarrow> nat \<Rightarrow> bool" where
  "guarded bs p =
     (nthJS bs (int p + 1) = Some CALLVALUE \<and> nthJS bs (int p + 2) = Some DUP1
      \<and> nthJS bs (int p + 3) = Some ISZERO)"

declare decode.simps [simp del]
declare run.simps [simp del]

section \<open>The cursor\<close>

lemma iterNext_more:
  "hasMore c \<Longrightarrow> iterNext c =
     (bytecode c ! nextPos c,
      c\<lparr> posBuffer := (if length (posBuffer c) \<ge> posBufferSize c then tl (posBuffer c) else posBuffer c) @ [nextPos c],
         nextStep := nextStep c + 1,
         nextPos := nextPos c + (1 + pushWidth (bytecode c ! nextPos c)) \<rparr>)"
  by (simp add: iterNext_def hasMore_def Let_def)

lemma iterNext_done: "\<not> hasMore c \<Longrightarrow> iterNext c = (STOP, c)"
  by (simp add: iterNext_def hasMore_def)

lemma iterNext_bytecode [simp]: "bytecode (snd (iterNext c)) = bytecode c"
  by (cases "hasMore c") (simp_all add: iterNext_more iterNext_done)

lemma iterNext_posBufferSize [simp]: "posBufferSize (snd (iterNext c)) = posBufferSize c"
  by (cases "hasMore c") (simp_all add: iterNext_more iterNext_done)

lemma advance_bytecode [simp]: "bytecode (advance m c) = bytecode c"
  by (induction m) simp_all

lemma advance_posBufferSize [simp]: "posBufferSize (advance m c) = posBufferSize c"
  by (induction m) simp_all

lemma hasMore_iterNext: "hasMore (snd (iterNext c)) \<Longrightarrow> hasMore c"
  by (cases "hasMore c") (simp_all add: iterNext_done)

lemma hasMore_advance_mono: "hasMore (advance m c) \<Longrightarrow> i \<le> m \<Longrightarrow> hasMore (advance i c)"
proof (induction m)
  case 0
  then show ?case by simp
next
  case (Suc m)
  show ?case
  proof (cases "i = Suc m")
    case True
    with Suc.prems show ?thesis by simp
  next
    case False
    with Suc.prems have "i \<le> m" by simp
    moreover from Suc.prems have "hasMore (advance m c)"
      by (simp add: hasMore_iterNext)
    ultimately show ?thesis by (rule Suc.IH[rotated])
  qed
qed

lemma nextStep_advance:
  "\<forall>i<m. hasMore (advance i c) \<Longrightarrow> nextStep (advance m c) = nextStep c + m"
  by (induction m) (simp_all add: iterNext_more)

lemma posBuffer_advance:
  assumes "\<forall>i<m. hasMore (advance i c)" and "posBuffer c = []" and "1 \<le> posBufferSize c"
  shows "posBuffer (advance m c) =
           map (\<lambda>i. nextPos (advance i c)) [m - min m (posBufferSize c) ..< m]"
  using assms(1)
proof (induction m)
  case 0
  with assms show ?case by simp
next
  case (Suc m)
  let ?K = "posBufferSize c"
  let ?f = "\<lambda>i. nextPos (advance i c)"
  have more: "hasMore (advance m c)" using Suc.prems by simp
  have IH: "posBuffer (advance m c) = map ?f [m - min m ?K ..< m]"
    using Suc by simp
  have len: "length (posBuffer (advance m c)) = min m ?K"
    by (simp add: IH)
  show ?case
  proof (cases "?K \<le> m")
    case True
    then have "tl (posBuffer (advance m c)) = map ?f [Suc (m - ?K) ..< m]"
      by (simp add: IH map_tl[symmetric])
    moreover have "Suc m - min (Suc m) ?K = Suc (m - ?K)"
      using True assms(3) by simp
    ultimately show ?thesis
      using True more len assms(3) by (simp add: iterNext_more)
  next
    case False
    then show ?thesis
      using more len by (simp add: iterNext_more IH)
  qed
qed


lemma at_back:
  assumes "\<forall>i<m. hasMore (advance i c)" and "posBuffer c = []" and "1 \<le> posBufferSize c"
    and "1 \<le> k" and "k \<le> min m (posBufferSize c)"
  shows "at (advance m c) (- int k) = Some (fst (iterNext (advance (m - k) c)))"
proof -
  let ?K = "posBufferSize c"
  let ?f = "\<lambda>i. nextPos (advance i c)"
  have buf: "posBuffer (advance m c) = map ?f [m - min m ?K ..< m]"
    using assms(1-3) by (rule posBuffer_advance)
  have len: "length (posBuffer (advance m c)) = min m ?K"
    by (simp add: buf)
  have idx: "nat (int (min m ?K) - int k) = min m ?K - k" 
    using assms(5) by simp
  have "min m ?K - k < length [m - min m ?K ..< m]"
    using assms(4,5) by (simp add: min_def)
  then have "map ?f [m - min m ?K ..< m] ! (min m ?K - k) = ?f ([m - min m ?K ..< m] ! (min m ?K - k))"
    by (rule nth_map)
  moreover have "[m - min m ?K ..< m] ! (min m ?K - k) = m - k"
  proof -
    have "m - min m ?K + (min m ?K - k) < m"
      using assms(4,5) by arith
    then have "[m - min m ?K ..< m] ! (min m ?K - k) = m - min m ?K + (min m ?K - k)"
      by (rule nth_upt)
    also have "\<dots> = m - k"
      using assms(4,5) by arith
    finally show ?thesis .
  qed
  ultimately have "posBuffer (advance m c) ! (min m ?K - k) = ?f (m - k)"
    by (simp add: buf)
  moreover have more: "hasMore (advance (m - k) c)"
    using assms(1,4,5) by simp
  moreover have "nextPos (advance (m - k) c) < length (bytecode c)"
    using more by (simp add: hasMore_def)
  ultimately show ?thesis
    using assms(4,5) len idx
    by (simp add: at_def nthJS_def iterNext_more)
qed

lemma pos_after_next:
  "hasMore c \<Longrightarrow>
     pos (snd (iterNext c)) = int (nextPos c) + int (pushWidth (fst (iterNext c)))
     \<and> step (snd (iterNext c)) = int (nextStep c)"
  by (simp add: iterNext_more pos_def step_def)

lemma advance_stable: "\<not> hasMore (advance n c) \<Longrightarrow> n \<le> m \<Longrightarrow> advance m c = advance n c"
proof (induction m)
  case 0
  then show ?case by simp
next
  case (Suc m)
  show ?case
  proof (cases "n = Suc m")
    case True
    then show ?thesis by simp
  next
    case False
    with Suc have eq: "advance m c = advance n c" by simp
    with Suc.prems(1) show ?thesis by (simp add: iterNext_done)
  qed
qed

lemma advance_decoded:
  obtains n where "n \<le> m" and "advance m c = advance n c" and "\<forall>i<n. hasMore (advance i c)"
proof (cases "\<forall>i<m. hasMore (advance i c)")
  case True
  then show ?thesis using that[of m] by simp
next
  case False
  then obtain j where j: "j < m" "\<not> hasMore (advance j c)" by auto
  define n where "n = (LEAST j. \<not> hasMore (advance j c))"
  have stop: "\<not> hasMore (advance n c)"
    unfolding n_def using j(2) by (rule LeastI)
  have "n \<le> j"
    unfolding n_def using j(2) by (rule Least_le)
  with j(1) have le: "n \<le> m" by simp
  have before: "\<forall>i<n. hasMore (advance i c)"
    unfolding n_def using not_less_Least by blast
  from stop le have "advance m c = advance n c" by (rule advance_stable)
  with le before show ?thesis using that by blast
qed

lemma iterOf_fields [simp]:
  "bytecode (iterOf bs k) = bs" "nextStep (iterOf bs k) = 0" "nextPos (iterOf bs k) = 0"
  "posBuffer (iterOf bs k) = []"
  by (simp_all add: iterOf_def)

lemma iterOf_size [simp]: "1 \<le> K \<Longrightarrow> posBufferSize (iterOf bs (Some K)) = K"
  by (simp add: iterOf_def)

subsection \<open>The cursor walks the instructions\<close>

lemma decode_advance:
  assumes "\<forall>i<m. hasMore (advance i c)"
  shows "decode (bytecode c) (nextPos (advance m c)) = drop m (decode (bytecode c) (nextPos c))"
  using assms
proof (induction m)
  case 0
  show ?case by simp
next
  case (Suc m)
  let ?bs = "bytecode c"
  let ?a = "advance m c"
  from Suc.prems have more: "hasMore ?a" by simp
  then have lt: "nextPos ?a < length ?bs" by (simp add: hasMore_def)
  from Suc have IH: "decode ?bs (nextPos ?a) = drop m (decode ?bs (nextPos c))" by simp
  from lt have "decode ?bs (nextPos ?a) =
      (nextPos ?a, ?bs ! nextPos ?a) # decode ?bs (nextPos ?a + (1 + pushWidth (?bs ! nextPos ?a)))"
    by (simp add: decode.simps[of ?bs "nextPos ?a"])
  with IH have "drop m (decode ?bs (nextPos c)) =
      (nextPos ?a, ?bs ! nextPos ?a) # decode ?bs (nextPos ?a + (1 + pushWidth (?bs ! nextPos ?a)))"
    by simp
  then have "decode ?bs (nextPos ?a + (1 + pushWidth (?bs ! nextPos ?a))) =
      tl (drop m (decode ?bs (nextPos c)))"
    by simp
  also have "\<dots> = drop (Suc m) (decode ?bs (nextPos c))"
    by (simp add: drop_Suc tl_drop)
  finally show ?case
    using more by (simp add: iterNext_more)
qed

lemma decode_nth_advance:
  assumes "\<forall>i\<le>m. hasMore (advance i (iterOf bs k))"
  shows "m < length (decode bs 0)
         \<and> decode bs 0 ! m = (nextPos (advance m (iterOf bs k)), fst (iterNext (advance m (iterOf bs k))))"
proof -
  let ?a = "advance m (iterOf bs k)"
  from assms have more: "hasMore ?a" and before: "\<forall>i<m. hasMore (advance i (iterOf bs k))"
    by simp_all
  from more have lt: "nextPos ?a < length bs" by (simp add: hasMore_def)
  from decode_advance[OF before] have "decode bs (nextPos ?a) = drop m (decode bs 0)"
    by simp
  moreover from lt have "decode bs (nextPos ?a) =
      (nextPos ?a, bs ! nextPos ?a) # decode bs (nextPos ?a + (1 + pushWidth (bs ! nextPos ?a)))"
    by (simp add: decode.simps[of bs "nextPos ?a"])
  ultimately have d: "drop m (decode bs 0) =
      (nextPos ?a, bs ! nextPos ?a) # decode bs (nextPos ?a + (1 + pushWidth (bs ! nextPos ?a)))"
    by simp
  then have n: "m < length (decode bs 0)"
    by (cases "m < length (decode bs 0)") simp_all
  then have "decode bs 0 ! m = hd (drop m (decode bs 0))"
    by (simp add: hd_drop_conv_nth)
  with d n more show ?thesis by (simp add: iterNext_more)
qed

section \<open>Hexadecimal strings\<close>

lemma byte_lt: "unat (v::byte) < 256"
  using unsigned_less[of v, where 'a=nat] by simp

lemma lo_nibble: "unat ((v::byte) AND 0x0f) = unat v mod 16"
proof -
  have "unat (v AND 0x0f) = unat v AND 15"
    by (simp add: unsigned_and_eq)
  also have "\<dots> = take_bit 4 (unat v)"
    by (simp add: take_bit_eq_mask mask_eq_exp_minus_1)
  finally show ?thesis
    by (simp add: take_bit_eq_mod)
qed

lemma hi_nibble: "unat (drop_bit 4 ((v::byte) AND 0xf0)) = unat v div 16"
proof -
  have "unat (drop_bit 4 (v AND 0xf0)) = drop_bit 4 (unat v AND 240)"
    by (simp add: unat_drop_bit_eq unsigned_and_eq)
  also have "\<dots> = drop_bit 4 (unat v) AND drop_bit 4 240"
    by (simp add: drop_bit_and)
  also have "drop_bit 4 (240::nat) = 15"
    by (simp add: drop_bit_eq_div)
  also have "drop_bit 4 (unat v) AND 15 = take_bit 4 (drop_bit 4 (unat v))"
    by (simp add: take_bit_eq_mask mask_eq_exp_minus_1)
  also have "\<dots> = unat v div 16"
    using byte_lt[of v] by (simp add: take_bit_eq_mod drop_bit_eq_div)
  finally show ?thesis .
qed

lemma HexCharacters_nth:
  assumes "n < 16"
  shows "HexCharacters ! n \<in> set HexCharacters \<and> isHexDigit (HexCharacters ! n)
         \<and> hexValue (HexCharacters ! n) = n"
proof -
  have "list_all (\<lambda>i. HexCharacters ! i \<in> set HexCharacters \<and> isHexDigit (HexCharacters ! i)
            \<and> hexValue (HexCharacters ! i) = i) [0..<16]"
    by code_simp
  with assms show ?thesis
    by (simp add: list_all_iff)
qed

lemma hexByte_length [simp]: "length (hexByte v) = 2"
  by (simp add: hexByte_def)

lemma hexByte_chars: "set (hexByte v) \<subseteq> set HexCharacters"
proof -
  have "unat v div 16 < 16" "unat v mod 16 < 16"
    using byte_lt[of v] by simp_all
  then show ?thesis
    unfolding hexByte_def hi_nibble lo_nibble by (simp add: HexCharacters_nth)
qed

lemma hexlify_length: "length (hexlify v) = 2 + 2 * length v"
  by (induction v) (simp_all add: hexlify_def)

lemma hexlify_prefix: "take 2 (hexlify v) = ''0x''"
  by (simp add: hexlify_def)

lemma hexlify_chars: "set (drop 2 (hexlify v)) \<subseteq> set HexCharacters"
  using hexByte_chars by (auto simp: hexlify_def)

lemma hexPairs_hexByte: "hexPairs (hexByte v @ rest) = v # hexPairs rest"
proof -
  have "unat v div 16 < 16" "unat v mod 16 < 16"
    using byte_lt[of v] by simp_all
  then have "hexPairs (hexByte v @ rest) = of_nat (16 * (unat v div 16) + unat v mod 16) # hexPairs rest"
    unfolding hexByte_def hi_nibble lo_nibble by (simp add: HexCharacters_nth del: of_nat_add of_nat_mult)
  moreover have "(word_of_nat (16 * (unat v div 16) + unat v mod 16) :: byte) = word_of_nat (unat v)"
    by simp
  ultimately show ?thesis by simp
qed

lemma hexPairs_concat: "hexPairs (concat (map hexByte bs)) = bs"
  by (induction bs) (simp_all add: hexPairs_hexByte)

lemma arrayify_hexlify: "arrayify (hexlify bs) = Inr bs"
proof -
  have "list_all isHexDigit (concat (map hexByte bs))"
  proof -
    have "\<forall>ch \<in> set HexCharacters. isHexDigit ch"
      by (simp add: HexCharacters_def isHexDigit_def)
    with hexlify_chars[of bs] show ?thesis
      by (auto simp: list_all_iff hexlify_def)
  qed
  moreover have "even (length (concat (map hexByte bs)))"
    using hexlify_length[of bs] by (simp add: hexlify_def)
  ultimately show ?thesis
    by (simp add: arrayify_def hexlify_def hexPairs_concat)
qed

section \<open>The extractor's loop\<close>

lemma loopBody_cases [consumes 1, case_names PUSH32 LOG JUMPDEST_guard JUMPDEST SELECTOR OTHER]:
  fixes s :: ExtractState
  defines "inst \<equiv> fst (iterNext (code s))" and "c \<equiv> snd (iterNext (code s))"
  assumes body: "loopBody s = Inr s'"
  obtains
    "inst = PUSH32" and "s' = s\<lparr> code := c, lastPush32 := iterValue c \<rparr>"
  | "isLog inst" and "lastPush32 s \<noteq> []"
      and "s' = s\<lparr> code := c, abi := abi s @ [ABIEvent (hexlify (lastPush32 s))] \<rparr>"
  | "inst = JUMPDEST"
      and "at c (pos c + 1) = Some CALLVALUE" and "at c (pos c + 2) = Some DUP1"
      and "at c (pos c + 3) = Some ISZERO"
      and "s' = s\<lparr> code := c, dests := (dests s)(pos c \<mapsto> step c),
                    notPayable := (notPayable s)(pos c \<mapsto> step c) \<rparr>"
  | "inst = JUMPDEST" and "s' = s\<lparr> code := c, dests := (dests s)(pos c \<mapsto> step c) \<rparr>"
      and "\<not> (at c (pos c + 1) = Some CALLVALUE \<and> at c (pos c + 2) = Some DUP1
              \<and> at c (pos c + 3) = Some ISZERO)"
  | v where "at c (- 1) = Some JUMPI" and "isPushU (at c (- 2))" and "at c (- 3) = Some EQ"
      and "isPushU (at c (- 4))" and "zeroPad (valueAt c (- 4)) 4 = Inr v"
      and "s' = s\<lparr> code := c,
                    jumps := AList.update (hexlify v) (parseInt16 (hexlify (valueAt c (- 2)))) (jumps s) \<rparr>"
      and "inst \<noteq> PUSH32" and "inst \<noteq> JUMPDEST"
  | "inst \<noteq> PUSH32" and "inst \<noteq> JUMPDEST" and "s' = s\<lparr> code := c \<rparr>"
  using body unfolding inst_def c_def
  by (auto simp: loopBody_def Let_def split_beta split: if_splits sum.splits)


lemma pushWidth_PUSH32 [simp]: "pushWidth PUSH32 = 32"
  by (simp add: pushWidth_def)

lemma pushWidth_JUMPDEST [simp]: "pushWidth JUMPDEST = 0"
  by (simp add: pushWidth_def)

lemma loopBody_code: "loopBody s = Inr s' \<Longrightarrow> code s' = snd (iterNext (code s))"
  by (erule loopBody_cases) simp_all

lemma reachable_code:
  "reachable bs s \<Longrightarrow> bytecode (code s) = bs \<and> posBufferSize (code s) = 4"
proof (induction rule: reachable.induct)
  case start
  show ?case by (simp add: initState_def iterOf_def)
next
  case (iterate s s')
  then show ?case by (simp add: loopBody_code)
qed

lemma run_reachable:
  "reachable bs s \<Longrightarrow> run s = Inr t \<Longrightarrow> reachable bs t \<and> \<not> hasMore (code t)"
proof (induction s rule: run.induct)
  case (1 s)
  show ?case
  proof (cases "hasMore (code s)")
    case False
    with "1.prems" show ?thesis by (simp add: run.simps[of s])
  next
    case True
    with "1.prems"(2) obtain s' where body: "loopBody s = Inr s'" and rest: "run s' = Inr t"
      by (auto simp: run.simps[of s] split: sum.splits)
    from "1.prems"(1) True body have "reachable bs s'" by (rule reachable.iterate)
    with "1.IH" True body rest show ?thesis by blast
  qed
qed

subsection \<open>The last PUSH32 immediate\<close>

lemma iterValue_after_next:
  "hasMore c \<Longrightarrow>
   iterValue (snd (iterNext c)) =
     slice (bytecode c) (nextPos c + 1) (nextPos c + 1 + pushWidth (bytecode c ! nextPos c))"
  by (simp add: iterNext_more iterValue_def valueAt_def nthJS_def hasMore_def)

lemma lastPush32_full:
  "reachable bs s \<Longrightarrow> lastPush32 s = [] \<or> length (lastPush32 s) = 32 \<or> \<not> hasMore (code s)"
proof (induction rule: reachable.induct)
  case start
  show ?case by (simp add: initState_def)
next
  case (iterate s s')
  from iterate.hyps(2) iterate.IH
  have old: "lastPush32 s = [] \<or> length (lastPush32 s) = 32" by blast
  from iterate.hyps(3) show ?case
  proof (cases rule: loopBody_cases)
    case PUSH32
    let ?c = "code s"
    from PUSH32(1) iterate.hyps(2) have inst: "bytecode ?c ! nextPos ?c = PUSH32"
      by (simp add: iterNext_more)
    from PUSH32(2) iterate.hyps(2) inst
    have val: "lastPush32 s' = slice (bytecode ?c) (nextPos ?c + 1) (nextPos ?c + 1 + 32)"
      by (simp add: iterValue_after_next)
    from PUSH32(2) iterate.hyps(2) inst
    have nxt: "nextPos (code s') = nextPos ?c + 33" and bc: "bytecode (code s') = bytecode ?c"
      by (simp_all add: iterNext_more)
    show ?thesis
    proof (cases "hasMore (code s')")
      case True
      with nxt bc have "nextPos ?c + 33 < length (bytecode ?c)"
        by (simp add: hasMore_def)
      with val have "length (lastPush32 s') = 32"
        by (simp add: slice_def)
      then show ?thesis by simp
    next
      case False
      then show ?thesis by simp
    qed
  qed (use old in auto)
qed

subsection \<open>Instruction boundaries\<close>

lemma reachable_decode:
  "reachable bs s \<Longrightarrow> decode bs (nextPos (code s)) = drop (nextStep (code s)) (decode bs 0)"
proof (induction rule: reachable.induct)
  case start
  show ?case by (simp add: initState_def iterOf_def)
next
  case (iterate s s')
  let ?c = "code s"
  from iterate.hyps(1) have bc: "bytecode ?c = bs" by (simp add: reachable_code)
  with iterate.hyps(2) have lt: "nextPos ?c < length bs" by (simp add: hasMore_def)
  from iterate.hyps(3) have c': "code s' = snd (iterNext ?c)" by (rule loopBody_code)
  from lt have "decode bs (nextPos ?c) =
      (nextPos ?c, bs ! nextPos ?c) # decode bs (nextPos ?c + (1 + pushWidth (bs ! nextPos ?c)))"
    by (simp add: decode.simps[of bs "nextPos ?c"])
  with iterate.IH have "drop (nextStep ?c) (decode bs 0) =
      (nextPos ?c, bs ! nextPos ?c) # decode bs (nextPos ?c + (1 + pushWidth (bs ! nextPos ?c)))"
    by simp
  then have "decode bs (nextPos ?c + (1 + pushWidth (bs ! nextPos ?c))) =
      tl (drop (nextStep ?c) (decode bs 0))"
    by simp
  also have "\<dots> = drop (Suc (nextStep ?c)) (decode bs 0)"
    by (simp add: drop_Suc tl_drop)
  finally show ?case
    using iterate.hyps(2) bc by (simp add: c' iterNext_more)
qed

lemma reachable_current:
  assumes "reachable bs s" and "hasMore (code s)"
  shows "nextStep (code s) < length (decode bs 0)
         \<and> decode bs 0 ! nextStep (code s) = (nextPos (code s), bs ! nextPos (code s))"
proof -
  let ?c = "code s"
  from assms have lt: "nextPos ?c < length bs" by (simp add: reachable_code hasMore_def)
  then have "decode bs (nextPos ?c) =
      (nextPos ?c, bs ! nextPos ?c) # decode bs (nextPos ?c + (1 + pushWidth (bs ! nextPos ?c)))"
    by (simp add: decode.simps[of bs "nextPos ?c"])
  with reachable_decode[OF assms(1)]
  have d: "drop (nextStep ?c) (decode bs 0) =
      (nextPos ?c, bs ! nextPos ?c) # decode bs (nextPos ?c + (1 + pushWidth (bs ! nextPos ?c)))"
    by simp
  then have n: "nextStep ?c < length (decode bs 0)"
    by (cases "nextStep ?c < length (decode bs 0)") simp_all
  then have "decode bs 0 ! nextStep ?c = hd (drop (nextStep ?c) (decode bs 0))"
    by (simp add: hd_drop_conv_nth)
  with d n show ?thesis by simp
qed

lemma decode_in_range: "(p, b) \<in> set (decode bs q) \<Longrightarrow> p < length bs \<and> b = bs ! p"
proof (induction bs q rule: decode.induct)
  case (1 bs q)
  show ?case
  proof (cases "q < length bs")
    case True
    with "1.prems" "1.IH" show ?thesis
      by (auto simp: decode.simps[of bs q])
  next
    case False
    with "1.prems" show ?thesis by (simp add: decode.simps[of bs q])
  qed
qed

subsection \<open>The tables of jump destinations\<close>

lemma tables_inv:
  "reachable bs s \<Longrightarrow>
     (\<forall>p st. dests s p = Some st \<longrightarrow>
        0 \<le> p \<and> p < int (nextPos (code s)) \<and> 0 \<le> st \<and> nat st < length (decode bs 0)
        \<and> decode bs 0 ! nat st = (nat p, JUMPDEST))
   \<and> (\<forall>p st. notPayable s p = Some st \<longrightarrow>
        dests s p = Some st \<and> nthJS bs (p + 1) = Some CALLVALUE
        \<and> nthJS bs (p + 2) = Some DUP1 \<and> nthJS bs (p + 3) = Some ISZERO)"
proof (induction rule: reachable.induct)
  case start
  show ?case by (simp add: initState_def)
next
  case (iterate s s')
  let ?c = "code s"
  let ?c' = "snd (iterNext ?c)"
  let ?D = "decode bs 0"
  from iterate.hyps(1) have bc: "bytecode ?c = bs" by (simp add: reachable_code)
  have inst: "fst (iterNext ?c) = bs ! nextPos ?c"
    and np': "nextPos ?c' = nextPos ?c + (1 + pushWidth (bs ! nextPos ?c))"
    and ns': "nextStep ?c' = nextStep ?c + 1"
    and bc': "bytecode ?c' = bs"
    using iterate.hyps(2) bc by (simp_all add: iterNext_more)
  from reachable_current[OF iterate.hyps(1,2)]
  have cur: "nextStep ?c < length ?D" "?D ! nextStep ?c = (nextPos ?c, bs ! nextPos ?c)"
    by simp_all
  have old_d: "0 \<le> p \<and> p < int (nextPos ?c') \<and> 0 \<le> st \<and> nat st < length ?D
        \<and> ?D ! nat st = (nat p, JUMPDEST)" if "dests s p = Some st" for p st
    using iterate.IH that np' by fastforce
  have old_n: "dests s p = Some st \<and> nthJS bs (p + 1) = Some CALLVALUE
        \<and> nthJS bs (p + 2) = Some DUP1 \<and> nthJS bs (p + 3) = Some ISZERO"
    if "notPayable s p = Some st" for p st
    using iterate.IH that by blast
  have fresh: "dests s (int (nextPos ?c)) = None"
  proof (cases "dests s (int (nextPos ?c))")
    case (Some st)
    with iterate.IH have "int (nextPos ?c) < int (nextPos ?c)" by blast
    then show ?thesis by simp
  qed simp
  have jd: "pos ?c' = int (nextPos ?c) \<and> step ?c' = int (nextStep ?c)
      \<and> ?D ! nextStep ?c = (nextPos ?c, JUMPDEST)"
    if "fst (iterNext ?c) = JUMPDEST"
    using that inst np' ns' cur by (simp add: pos_def step_def)
  from iterate.hyps(3) show ?case
  proof (cases rule: loopBody_cases)
    case PUSH32
    with old_d old_n show ?thesis by simp
  next
    case LOG
    with old_d old_n show ?thesis by simp
  next
    case JUMPDEST_guard
    note jd' = jd[OF JUMPDEST_guard(1)]
    have g: "nthJS bs (int (nextPos ?c) + 1) = Some CALLVALUE"
      "nthJS bs (int (nextPos ?c) + 2) = Some DUP1"
      "nthJS bs (int (nextPos ?c) + 3) = Some ISZERO"
      using JUMPDEST_guard(2,3,4) jd' bc' by (simp_all add: at_def)
    have s': "s' = s\<lparr> code := ?c', dests := (dests s)(int (nextPos ?c) \<mapsto> int (nextStep ?c)),
                notPayable := (notPayable s)(int (nextPos ?c) \<mapsto> int (nextStep ?c)) \<rparr>"
      using JUMPDEST_guard(5) jd' by simp
    have at_n: "?D ! nextStep ?c = (nextPos ?c, JUMPDEST)" using jd' by simp
    show ?thesis
    proof (intro conjI allI impI)
      fix p st assume "dests s' p = Some st"
      then show "0 \<le> p" "p < int (nextPos (code s'))" "0 \<le> st" "nat st < length ?D"
        "?D ! nat st = (nat p, JUMPDEST)"
        using at_n cur(1) np' old_d[of p st]
        by (auto simp: s' split: if_splits)
    next
      fix p st assume "notPayable s' p = Some st"
      then show "dests s' p = Some st" "nthJS bs (p + 1) = Some CALLVALUE"
        "nthJS bs (p + 2) = Some DUP1" "nthJS bs (p + 3) = Some ISZERO"
        using g old_n[of p st]
        by (auto simp: s' split: if_splits)
    qed
  next
    case JUMPDEST
    note jd' = jd[OF JUMPDEST(1)]
    have s': "s' = s\<lparr> code := ?c', dests := (dests s)(int (nextPos ?c) \<mapsto> int (nextStep ?c)) \<rparr>"
      using JUMPDEST(2) jd' by simp
    have at_n: "?D ! nextStep ?c = (nextPos ?c, JUMPDEST)" using jd' by simp
    show ?thesis
    proof (intro conjI allI impI)
      fix p st assume "dests s' p = Some st"
      then show "0 \<le> p" "p < int (nextPos (code s'))" "0 \<le> st" "nat st < length ?D"
        "?D ! nat st = (nat p, JUMPDEST)"
        using at_n cur(1) np' old_d[of p st]
        by (auto simp: s' split: if_splits)
    next
      fix p st assume "notPayable s' p = Some st"
      then show "dests s' p = Some st" "nthJS bs (p + 1) = Some CALLVALUE"
        "nthJS bs (p + 2) = Some DUP1" "nthJS bs (p + 3) = Some ISZERO"
        using fresh old_n[of p st]
        by (auto simp: s' split: if_splits)
    qed
  next
    case (SELECTOR v)
    with old_d old_n show ?thesis by simp
  next
    case OTHER
    with old_d old_n show ?thesis by simp
  qed
qed

subsection \<open>Selectors and events\<close>

lemma zeroPad_length: "zeroPad v n = Inr w \<Longrightarrow> length w = n \<and> w = replicate (n - length v) 0 @ v \<and> length v \<le> n"
  by (auto simp: zeroPad_def split: if_splits)

lemma jumps_keys:
  "reachable bs s \<Longrightarrow> k \<in> fst ` set (jumps s) \<Longrightarrow> \<exists>v. length v = 4 \<and> k = hexlify v"
proof (induction arbitrary: k rule: reachable.induct)
  case start
  then show ?case by (simp add: initState_def)
next
  case (iterate s s')
  from iterate.hyps(3) show ?case
  proof (cases rule: loopBody_cases)
    case (SELECTOR v)
    from SELECTOR(5) have "length v = 4" by (simp add: zeroPad_length)
    with SELECTOR(6) iterate.prems iterate.IH show ?thesis
      by (auto simp: dom_update)
  qed (use iterate.prems iterate.IH in auto)
qed

lemma abi_events:
  "reachable bs s \<Longrightarrow> e \<in> set (abi s) \<Longrightarrow> \<exists>T. length T = 32 \<and> e = ABIEvent (hexlify T)"
proof (induction arbitrary: e rule: reachable.induct)
  case start
  then show ?case by (simp add: initState_def)
next
  case (iterate s s')
  from iterate.hyps(3) show ?case
  proof (cases rule: loopBody_cases)
    case LOG
    from lastPush32_full[OF iterate.hyps(1)] iterate.hyps(2) LOG(2)
    have "length (lastPush32 s) = 32" by simp
    with LOG(3) iterate.prems iterate.IH show ?thesis by auto
  qed (use iterate.prems iterate.IH in auto)
qed

subsection \<open>The output\<close>

lemma abiFromBytecode_reachable:
  assumes "abiFromBytecode hex = Inr out"
  obtains bs s where "arrayify hex = Inr bs" and "reachable bs s" and "\<not> hasMore (code s)"
    and "out = finish s"
proof -
  from assms obtain bs where bs: "arrayify hex = Inr bs" and "abiFromBytes bs = Inr out"
    by (auto simp: abiFromBytecode_def split: sum.splits)
  then obtain s where s: "run (initState bs) = Inr s" and out: "out = finish s"
    by (auto simp: abiFromBytes_def split: sum.splits)
  from run_reachable[OF reachable.start s] bs out show ?thesis
    using that by blast
qed

lemma finish_events: "reachable bs s \<Longrightarrow> ABIEvent h \<in> set (finish s) \<Longrightarrow> ABIEvent h \<in> set (abi s)"
  by (auto simp: finish_def)

lemma finish_functions:
  assumes "reachable bs s" and "ABIFunction sel p \<in> set (finish s)"
  shows "sel \<in> fst ` set (jumps s)"
proof -
  from abi_events[OF assms(1)] have "ABIFunction sel p \<notin> set (abi s)" by blast
  with assms(2) show ?thesis by (force simp: finish_def)
qed

lemma hexlify_shape:
  "length (hexlify v) = 2 + 2 * length v \<and> take 2 (hexlify v) = ''0x''
   \<and> set (drop 2 (hexlify v)) \<subseteq> set ''0123456789abcdef''"
  using hexlify_chars[of v] by (simp add: hexlify_length hexlify_prefix HexCharacters_def)

lemma isLog_width: "isLog i \<Longrightarrow> i \<noteq> PUSH32 \<and> pushWidth i = 0"
  by (auto simp: isLog_def pushWidth_def word_le_nat_alt word_less_nat_alt)

lemma loopBody_LOG:
  assumes "isLog (fst (iterNext (code s)))" and "lastPush32 s \<noteq> []"
  shows "loopBody s =
     Inr (s\<lparr> code := snd (iterNext (code s)),
              abi := abi s @ [ABIEvent (hexlify (lastPush32 s))] \<rparr>)"
  using assms isLog_width[OF assms(1)]
  by (simp add: loopBody_def split_beta)

lemma run_PUSH32_two_LOGs:
  assumes T: "length T = 32" and l1: "isLog l1" and l2: "isLog l2"
  shows "abiFromBytes (PUSH32 # T @ [l1, l2]) = Inr [ABIEvent (hexlify T), ABIEvent (hexlify T)]"
proof -
  let ?bs = "PUSH32 # T @ [l1, l2]"
  let ?E = "ABIEvent (hexlify T)"
  define c1 where "c1 = \<lparr> bytecode = ?bs, nextStep = 1, nextPos = 33, posBuffer = [0], posBufferSize = 4 \<rparr>"
  define c2 where "c2 = \<lparr> bytecode = ?bs, nextStep = 2, nextPos = 34, posBuffer = [0, 33], posBufferSize = 4 \<rparr>"
  define c3 where "c3 = \<lparr> bytecode = ?bs, nextStep = 3, nextPos = 35, posBuffer = [0, 33, 34], posBufferSize = 4 \<rparr>"
  define s0 where "s0 = initState ?bs"
  define s1 where "s1 = s0\<lparr> code := c1, lastPush32 := T \<rparr>"
  define s2 where "s2 = s1\<lparr> code := c2, abi := [?E] \<rparr>"
  define s3 where "s3 = s2\<lparr> code := c3, abi := [?E, ?E] \<rparr>"
  have len: "length ?bs = 35" using T by simp
  have b33: "?bs ! 33 = l1" and b34: "?bs ! 34 = l2"
    using T by (simp_all add: nth_Cons' nth_append)
  have n0: "iterNext (code s0) = (PUSH32, c1)"
    using T by (simp add: s0_def initState_def iterOf_def iterNext_def c1_def)
  have v1: "iterValue c1 = T"
    using T by (simp add: iterValue_def valueAt_def nthJS_def c1_def slice_def)
  have body0: "loopBody s0 = Inr s1"
    by (simp add: loopBody_def n0 v1 s1_def)
  have f1: "code s1 = c1" "lastPush32 s1 = T" "abi s1 = []"
    by (simp_all add: s1_def s0_def initState_def)
  have f2: "code s2 = c2" "lastPush32 s2 = T" "abi s2 = [?E]"
    by (simp_all add: s2_def s1_def)
  have n1: "iterNext c1 = (l1, c2)"
    using len b33 isLog_width[OF l1]
    by (simp add: c1_def c2_def iterNext_def Let_def)
  have n2: "iterNext c2 = (l2, c3)"
    using len b34 isLog_width[OF l2]
    by (simp add: c2_def c3_def iterNext_def Let_def)
  have ne: "T \<noteq> []" using T by auto
  have body1: "loopBody s1 = Inr s2"
    using loopBody_LOG[of s1] l1 ne by (simp add: f1 n1 s2_def)
  have body2: "loopBody s2 = Inr s3"
    using loopBody_LOG[of s2] l2 ne by (simp add: f2 n2 s3_def)
  have m0: "hasMore (code s0)" using len by (simp add: s0_def initState_def iterOf_def hasMore_def)
  have m1: "hasMore (code s1)" using len by (simp add: f1 c1_def hasMore_def)
  have m2: "hasMore (code s2)" using len by (simp add: f2 c2_def hasMore_def)
  have m3: "\<not> hasMore (code s3)" using len by (simp add: s3_def c3_def hasMore_def)
  have "run s0 = Inr s3"
    using m0 m1 m2 m3 body0 body1 body2
    by (simp add: run.simps[of s0] run.simps[of s1] run.simps[of s2] run.simps[of s3])
  moreover have "finish s3 = [?E, ?E]"
    by (simp add: finish_def s3_def s2_def s1_def s0_def initState_def)
  ultimately show ?thesis
    by (simp add: abiFromBytes_def s0_def)
qed

subsection \<open>The payable flag\<close>

lemma decode_fst_ge: "i < length (decode bs q) \<Longrightarrow> q + i \<le> fst (decode bs q ! i)"
proof (induction bs q arbitrary: i rule: decode.induct)
  case (1 bs q)
  show ?case
  proof (cases "q < length bs")
    case False
    with "1.prems" show ?thesis by (simp add: decode.simps[of bs q])
  next
    case True
    then have d: "decode bs q = (q, bs ! q) # decode bs (q + (1 + pushWidth (bs ! q)))"
      by (simp add: decode.simps[of bs q])
    show ?thesis
    proof (cases i)
      case 0
      with d show ?thesis by simp
    next
      case (Suc j)
      with "1.prems" d have "j < length (decode bs (q + (1 + pushWidth (bs ! q))))" by simp
      with "1.IH"[OF True] have "q + (1 + pushWidth (bs ! q)) + j \<le> fst (decode bs (q + (1 + pushWidth (bs ! q))) ! j)"
        by simp
      with d Suc show ?thesis by simp
    qed
  qed
qed

lemma decode_first: "0 < length (decode bs 0) \<Longrightarrow> fst (decode bs 0 ! 0) = 0"
  by (cases "0 < length bs") (simp_all add: decode.simps[of bs 0])

lemma isLog_not_JUMPDEST: "isLog i \<Longrightarrow> i \<noteq> JUMPDEST"
  by (auto simp: isLog_def word_le_nat_alt)

lemma notPayable_complete:
  "reachable bs s \<Longrightarrow>
     \<forall>i p. i < nextStep (code s) \<and> i < length (decode bs 0) \<and> decode bs 0 ! i = (p, JUMPDEST)
           \<and> guarded bs p \<longrightarrow> notPayable s (int p) = Some (int i)"
proof (induction rule: reachable.induct)
  case start
  show ?case by (simp add: initState_def iterOf_def)
next
  case (iterate s s')
  let ?c = "code s"
  let ?c' = "snd (iterNext ?c)"
  let ?D = "decode bs 0"
  from iterate.hyps(1) have bc: "bytecode ?c = bs" by (simp add: reachable_code)
  have inst: "fst (iterNext ?c) = bs ! nextPos ?c"
    and np': "nextPos ?c' = nextPos ?c + (1 + pushWidth (bs ! nextPos ?c))"
    and ns': "nextStep ?c' = nextStep ?c + 1"
    and bc': "bytecode ?c' = bs"
    using iterate.hyps(2) bc by (simp_all add: iterNext_more)
  from iterate.hyps(3) have c': "code s' = ?c'" by (rule loopBody_code)
  from reachable_current[OF iterate.hyps(1,2)]
  have cur: "?D ! nextStep ?c = (nextPos ?c, bs ! nextPos ?c)" by simp
  have old: "notPayable s (int p) = Some (int i) \<and> int p < int (nextPos ?c)"
    if "i < nextStep ?c" "i < length ?D" "?D ! i = (p, JUMPDEST)" "guarded bs p" for i p
  proof -
    from iterate.IH that have n: "notPayable s (int p) = Some (int i)" by blast
    with tables_inv[OF iterate.hyps(1)] have "dests s (int p) = Some (int i)" by blast
    with tables_inv[OF iterate.hyps(1)] have "int p < int (nextPos ?c)" by blast
    with n show ?thesis by simp
  qed
  have jd: "pos ?c' = int (nextPos ?c) \<and> step ?c' = int (nextStep ?c)"
    if "fst (iterNext ?c) = JUMPDEST"
    using that inst np' ns' by (simp add: pos_def step_def)
  have keep: ?case if same: "notPayable s' = notPayable s"
    and not_new: "\<not> (bs ! nextPos ?c = JUMPDEST \<and> guarded bs (nextPos ?c))"
  proof (intro allI impI)
    fix i p
    assume a: "i < nextStep (code s') \<and> i < length ?D \<and> ?D ! i = (p, JUMPDEST) \<and> guarded bs p"
    show "notPayable s' (int p) = Some (int i)"
    proof (cases "i = nextStep ?c")
      case True
      with a cur not_new show ?thesis by auto
    next
      case False
      with a c' ns' have "i < nextStep ?c" by simp
      with old[of i p] a same show ?thesis by simp
    qed
  qed
  from iterate.hyps(3) show ?case
  proof (cases rule: loopBody_cases)
    case PUSH32
    with inst keep show ?thesis by simp
  next
    case LOG
    with inst isLog_not_JUMPDEST[of "bs ! nextPos ?c"] keep show ?thesis by simp
  next
    case JUMPDEST_guard
    note jd' = jd[OF JUMPDEST_guard(1)]
    have s': "notPayable s' = (notPayable s)(int (nextPos ?c) \<mapsto> int (nextStep ?c))"
      using JUMPDEST_guard(5) jd' by simp
    show ?thesis
    proof (intro allI impI)
      fix i p
      assume a: "i < nextStep (code s') \<and> i < length ?D \<and> ?D ! i = (p, JUMPDEST) \<and> guarded bs p"
      show "notPayable s' (int p) = Some (int i)"
      proof (cases "i = nextStep ?c")
        case True
        with a cur show ?thesis by (simp add: s')
      next
        case False
        with a c' ns' have "i < nextStep ?c" by simp
        with old[of i p] a show ?thesis by (simp add: s')
      qed
    qed
  next
    case JUMPDEST
    note jd' = jd[OF JUMPDEST(1)]
    from JUMPDEST(3) jd' bc' have "\<not> guarded bs (nextPos ?c)"
      by (simp add: at_def guarded_def)
    with JUMPDEST(2) keep show ?thesis by simp
  next
    case (SELECTOR v)
    with inst keep show ?thesis by simp
  next
    case OTHER
    with inst keep show ?thesis by simp
  qed
qed

lemma run_all_decoded:
  assumes "reachable bs s" and "\<not> hasMore (code s)"
  shows "length (decode bs 0) \<le> nextStep (code s)"
proof -
  from assms have "\<not> nextPos (code s) < length bs" by (simp add: hasMore_def reachable_code)
  then have "decode bs (nextPos (code s)) = []"
    by (simp add: decode.simps[of bs "nextPos (code s)"])
  with reachable_decode[OF assms(1)] show ?thesis by simp
qed

lemma payableOf_decoded:
  assumes r: "reachable bs s" and fin: "\<not> hasMore (code s)"
  shows "payableOf (notPayable s) d = False \<longleftrightarrow>
           (\<exists>n. d = Some n \<and> n \<noteq> 0 \<and> (n, JUMPDEST) \<in> set (decode bs 0) \<and> guarded bs n)"
proof
  let ?D = "decode bs 0"
  assume "payableOf (notPayable s) d = False"
  then obtain n st where d: "d = Some n" and np: "notPayable s (int n) = Some st" and st: "st \<noteq> 0"
    by (auto simp: payableOf_def split: option.splits)
  from tables_inv[OF r] np have g: "guarded bs n" and ds: "dests s (int n) = Some st"
    by (auto simp: guarded_def)
  with tables_inv[OF r] have st0: "0 \<le> st" and lt: "nat st < length ?D"
    and at: "?D ! nat st = (n, JUMPDEST)"
    by fastforce+
  from decode_fst_ge[OF lt] at have "nat st \<le> n" by simp
  with st st0 have "n \<noteq> 0" by auto
  moreover from lt at have "(n, JUMPDEST) \<in> set ?D" by (metis nth_mem)
  ultimately show "\<exists>n. d = Some n \<and> n \<noteq> 0 \<and> (n, JUMPDEST) \<in> set ?D \<and> guarded bs n"
    using d g by blast
next
  let ?D = "decode bs 0"
  assume "\<exists>n. d = Some n \<and> n \<noteq> 0 \<and> (n, JUMPDEST) \<in> set ?D \<and> guarded bs n"
  then obtain n where d: "d = Some n" and n0: "n \<noteq> 0" and mem: "(n, JUMPDEST) \<in> set ?D"
    and g: "guarded bs n" by blast
  from mem obtain i where i: "i < length ?D" "?D ! i = (n, JUMPDEST)"
    by (auto simp: in_set_conv_nth)
  with run_all_decoded[OF r fin] have "i < nextStep (code s)" by simp
  with notPayable_complete[OF r] i g have np: "notPayable s (int n) = Some (int i)" by blast
  have "i \<noteq> 0"
  proof
    assume "i = 0"
    with i decode_first[of bs] have "n = 0" by simp
    with n0 show False by simp
  qed
  with np d show "payableOf (notPayable s) d = False"
    by (simp add: payableOf_def)
qed

lemma payable_flag:
  assumes "abiFromBytecode hex = Inr out" and "arrayify hex = Inr bs"
    and "ABIFunction selector payable \<in> set out"
  shows "\<exists>s d. run (initState bs) = Inr s \<and> (selector, d) \<in> set (jumps s)
           \<and> (payable = False \<longleftrightarrow>
                (\<exists>n. d = Some n \<and> n \<noteq> 0 \<and> (n, JUMPDEST) \<in> set (decode bs 0) \<and> guarded bs n))"
proof -
  from assms(1,2) obtain s where s: "run (initState bs) = Inr s" and out: "out = finish s"
    by (auto simp: abiFromBytecode_def abiFromBytes_def split: sum.splits)
  from run_reachable[OF reachable.start s] have r: "reachable bs s" and fin: "\<not> hasMore (code s)"
    by simp_all
  from abi_events[OF r] have "ABIFunction selector payable \<notin> set (abi s)" by blast
  with assms(3) out obtain d where d: "(selector, d) \<in> set (jumps s)"
    and p: "payable = payableOf (notPayable s) d"
    by (auto simp: finish_def)
  from payableOf_decoded[OF r fin, of d] p s d show ?thesis by blast
qed

subsection \<open>The selector rule\<close>

lemma at_last_after_next:
  assumes "at (snd (iterNext c)) (- 1) = Some JUMPI"
  shows "fst (iterNext c) = JUMPI \<or> fst (iterNext c) = STOP"
proof (cases "hasMore c")
  case False
  then show ?thesis by (simp add: iterNext_done)
next
  case True
  then have lt: "nextPos c < length (bytecode c)" by (simp add: hasMore_def)
  from True have "at (snd (iterNext c)) (- 1) = Some (bytecode c ! nextPos c)"
    using lt by (simp add: iterNext_more at_def nthJS_def)
  with assms True show ?thesis by (simp add: iterNext_more)
qed

lemma loopBody_SELECTOR:
  assumes "at (snd (iterNext (code s))) (- 1) = Some JUMPI"
    and "isPushU (at (snd (iterNext (code s))) (- 2))"
    and "at (snd (iterNext (code s))) (- 3) = Some EQ"
    and "isPushU (at (snd (iterNext (code s))) (- 4))"
    and "length (valueAt (snd (iterNext (code s))) (- 4)) \<le> 4"
  shows "loopBody s =
     Inr (s\<lparr> code := snd (iterNext (code s)),
              jumps := AList.update
                (hexlify (replicate (4 - length (valueAt (snd (iterNext (code s))) (- 4))) 0
                          @ valueAt (snd (iterNext (code s))) (- 4)))
                (parseInt16 (hexlify (valueAt (snd (iterNext (code s))) (- 2))))
                (jumps s) \<rparr>)"
proof -
  from at_last_after_next[OF assms(1)]
  have inst: "fst (iterNext (code s)) \<noteq> PUSH32 \<and> \<not> isLog (fst (iterNext (code s)))
      \<and> fst (iterNext (code s)) \<noteq> JUMPDEST"
    by (auto simp: isLog_def)
  with assms show ?thesis
    by (simp add: loopBody_def split_beta zeroPad_def)
qed

lemma valueAt_width:
  assumes "k < 0" and "at c k = Some op"
  shows "length (valueAt c k) \<le> pushWidth op"
  using assms
  by (auto simp: at_def valueAt_def slice_def split: option.splits)

subsection \<open>Errors\<close>

lemma loopBody_error:
  "loopBody s = Inl e \<Longrightarrow>
     e = ValueOutOfRange \<and> 4 < length (valueAt (snd (iterNext (code s))) (- 4))"
  by (auto simp: loopBody_def zeroPad_def split_beta Let_def split: if_splits sum.splits)

lemma run_error: "run s = Inl e \<Longrightarrow> e = ValueOutOfRange"
proof (induction s rule: run.induct)
  case (1 s)
  show ?case
  proof (cases "hasMore (code s)")
    case False
    with "1.prems" show ?thesis by (simp add: run.simps[of s])
  next
    case True
    show ?thesis
    proof (cases "loopBody s")
      case (Inl e')
      with True "1.prems" loopBody_error[of s e'] show ?thesis
        by (simp add: run.simps[of s])
    next
      case (Inr s')
      with True "1.prems" "1.IH"[of s'] show ?thesis
        by (simp add: run.simps[of s])
    qed
  qed
qed

lemma abiFromBytecode_error:
  "abiFromBytecode hex = Inl e \<Longrightarrow> arrayify hex = Inl e \<or> e = ValueOutOfRange"
  by (auto simp: abiFromBytecode_def abiFromBytes_def split: sum.splits dest: run_error)

lemma abiFromBytecode_malformed: "arrayify hex = Inl e \<Longrightarrow> abiFromBytecode hex = Inl e"
  by (simp add: abiFromBytecode_def)

lemma short_window_no_error:
  assumes "length (posBuffer (snd (iterNext (code s)))) < 4"
  shows "loopBody s \<noteq> Inl e"
proof
  assume "loopBody s = Inl e"
  then have "4 < length (valueAt (snd (iterNext (code s))) (- 4))"
    by (simp add: loopBody_error)
  with assms show False
    by (simp add: valueAt_def nthJS_def)
qed

lemma abiFromBytecode_truncated_PUSH1: "abiFromBytecode ''0x60'' = Inr []"
  by code_simp

section \<open>The claims\<close>

subsection \<open>C1: position after a step\<close>

text \<open>
  C1. The claim: after a call of \<open>next()\<close>, \<open>pos()\<close> is the offset of the first byte of
  the instruction just decoded, and \<open>step()\<close> its ordinal. \<open>pos()\<close> returns
  \<open>nextPos - 1\<close>, which is the offset of the last byte of the instruction
  (\<open>pos_after_next\<close>): on the bytes \<open>60 01 00\<close> the first instruction, \<open>PUSH1\<close>, begins at
  offset 0 and \<open>pos()\<close> is 1 after it is decoded. The step is its ordinal, 0.
\<close>

theorem pos_after_PUSH1:
  "nextPos (iterOf [PUSH1, 0x01, STOP] None) = 0
   \<and> fst (iterNext (iterOf [PUSH1, 0x01, STOP] None)) = PUSH1
   \<and> pos (snd (iterNext (iterOf [PUSH1, 0x01, STOP] None))) = 1
   \<and> step (snd (iterNext (iterOf [PUSH1, 0x01, STOP] None))) = 0"
  by (simp add: iterOf_def iterNext_def pushWidth_def pos_def step_def Let_def)

subsection \<open>C2: errors of the extractor\<close>

text \<open>
  C2. The claim: \<open>abiFromBytecode\<close> raises only when the hexadecimal string is malformed.
  The string \<open>0x64010203040514603757\<close> is well formed (\<open>arrayify\<close> reads its ten bytes:
  \<open>PUSH5 0102030405, EQ, PUSH1 37, JUMPI\<close>), the selector rule matches at the \<open>JUMPI\<close>
  with a five-byte immediate four steps back, and \<open>zeroPad\<close> raises "value out of range".
\<close>

theorem extract_raises_on_PUSH5_selector:
  "arrayify ''0x64010203040514603757'' = Inr [0x64, 1, 2, 3, 4, 5, EQ, PUSH1, 0x37, JUMPI]
   \<and> abiFromBytecode ''0x64010203040514603757'' = Inl ValueOutOfRange"
  by code_simp

subsection \<open>C3: the payable flag\<close>

text \<open>
  C3. The claim: a function entry is not payable exactly when a \<open>JUMPDEST\<close> was decoded at
  its destination with \<open>CALLVALUE DUP1 ISZERO\<close> behind it. \<open>notPayable\<close> stores the step of
  the \<open>JUMPDEST\<close>, and \<open>!notPayable[dest]\<close> reads the step 0 as false: with the guarded
  \<open>JUMPDEST\<close> at offset 0 (step 0) and a dispatcher to destination 0 the entry is payable;
  the same code moved one byte (offset 1, step 1) gives a non-payable entry. For every
  destination but 0 the flag is as claimed (\<open>payable_flag\<close>).
\<close>

theorem payable_at_offset_zero:
  "abiFromBytecode ''0x5b34801563aabbccdd14600057''
     = Inr [ABIFunction ''0xaabbccdd'' True]
   \<and> arrayify ''0x5b34801563aabbccdd14600057''
     = Inr [JUMPDEST, CALLVALUE, DUP1, ISZERO, PUSH4, 0xaa, 0xbb, 0xcc, 0xdd, EQ, PUSH1, 0x00, JUMPI]
   \<and> abiFromBytecode ''0x005b34801563aabbccdd14600157''
     = Inr [ABIFunction ''0xaabbccdd'' False]"
  by code_simp

subsection \<open>C4: selectors\<close>

text \<open>
  C4. Every function entry that \<open>abiFromBytecode\<close> returns has a selector of exactly 10
  characters: \<open>0x\<close> and 8 lowercase hexadecimal digits. And in a pass through the loop
  where the window shows the dispatcher idiom (\<open>at(-1)\<close> is \<open>JUMPI\<close>, \<open>at(-2)\<close> a push,
  \<open>at(-3)\<close> is \<open>EQ\<close>) with a \<open>PUSHk\<close>, \<open>k \<le> 4\<close>, four steps back: the immediate read is at
  most 4 bytes long, zeros on its left bring it to exactly 4 bytes, and the pass writes
  \<open>jumps\<close> at the hexadecimal form of those 4 bytes (a new key, or the new destination of
  a key already bound) and changes nothing else but the cursor. The same holds whenever
  \<open>isPush(at(-4))\<close> is true and the immediate read is at most 4 bytes long; and no pass
  changes \<open>jumps\<close> in another way.
\<close>

theorem selector_canonical:
  "(abiFromBytecode hex = Inr out \<and> ABIFunction selector payable \<in> set out \<longrightarrow>
      length selector = 10 \<and> take 2 selector = ''0x''
      \<and> set (drop 2 selector) \<subseteq> set ''0123456789abcdef'')
   \<and> (at (snd (iterNext (code s))) (- 1) = Some JUMPI
       \<and> isPushU (at (snd (iterNext (code s))) (- 2))
       \<and> at (snd (iterNext (code s))) (- 3) = Some EQ
       \<and> at (snd (iterNext (code s))) (- 4) = Some op \<and> isPush op \<and> pushWidth op \<le> 4 \<longrightarrow>
      length (valueAt (snd (iterNext (code s))) (- 4)) \<le> 4
      \<and> length (replicate (4 - length (valueAt (snd (iterNext (code s))) (- 4))) (0 :: byte)
                @ valueAt (snd (iterNext (code s))) (- 4)) = 4
      \<and> loopBody s =
          Inr (s\<lparr> code := snd (iterNext (code s)),
                   jumps := AList.update
                     (hexlify (replicate (4 - length (valueAt (snd (iterNext (code s))) (- 4))) 0
                               @ valueAt (snd (iterNext (code s))) (- 4)))
                     (parseInt16 (hexlify (valueAt (snd (iterNext (code s))) (- 2))))
                     (jumps s) \<rparr>))
   \<and> (at (snd (iterNext (code s))) (- 1) = Some JUMPI
       \<and> isPushU (at (snd (iterNext (code s))) (- 2))
       \<and> at (snd (iterNext (code s))) (- 3) = Some EQ
       \<and> isPushU (at (snd (iterNext (code s))) (- 4))
       \<and> length (valueAt (snd (iterNext (code s))) (- 4)) \<le> 4 \<longrightarrow>
      loopBody s =
          Inr (s\<lparr> code := snd (iterNext (code s)),
                   jumps := AList.update
                     (hexlify (replicate (4 - length (valueAt (snd (iterNext (code s))) (- 4))) 0
                               @ valueAt (snd (iterNext (code s))) (- 4)))
                     (parseInt16 (hexlify (valueAt (snd (iterNext (code s))) (- 2))))
                     (jumps s) \<rparr>))
   \<and> (loopBody s = Inr s' \<and> jumps s' \<noteq> jumps s \<longrightarrow>
      length (valueAt (snd (iterNext (code s))) (- 4)) \<le> 4
      \<and> jumps s' =
          AList.update
            (hexlify (replicate (4 - length (valueAt (snd (iterNext (code s))) (- 4))) 0
                      @ valueAt (snd (iterNext (code s))) (- 4)))
            (parseInt16 (hexlify (valueAt (snd (iterNext (code s))) (- 2))))
            (jumps s))"
proof (intro conjI impI)
  assume a: "abiFromBytecode hex = Inr out \<and> ABIFunction selector payable \<in> set out"
  then obtain bs' t where r: "reachable bs' t" and out: "out = finish t"
    by (auto elim: abiFromBytecode_reachable)
  with a finish_functions[OF r, of selector payable]
  have "selector \<in> fst ` set (jumps t)" by simp
  with jumps_keys[OF r] obtain v where v: "length v = 4" "selector = hexlify v" by blast
  with hexlify_shape[of v]
  show "length selector = 10" "take 2 selector = ''0x''"
    "set (drop 2 selector) \<subseteq> set ''0123456789abcdef''"
    by simp_all
next
  let ?c = "snd (iterNext (code s))"
  let ?v = "valueAt ?c (- 4)"
  assume i: "at ?c (- 1) = Some JUMPI \<and> isPushU (at ?c (- 2)) \<and> at ?c (- 3) = Some EQ
       \<and> at ?c (- 4) = Some op \<and> isPush op \<and> pushWidth op \<le> 4"
  then have "length ?v \<le> pushWidth op" by (simp add: valueAt_width)
  with i show len: "length ?v \<le> 4" by simp
  then show "length (replicate (4 - length ?v) (0 :: byte) @ ?v) = 4" by simp
  from i len show "loopBody s =
      Inr (s\<lparr> code := ?c,
               jumps := AList.update (hexlify (replicate (4 - length ?v) 0 @ ?v))
                 (parseInt16 (hexlify (valueAt ?c (- 2)))) (jumps s) \<rparr>)"
    by (simp add: loopBody_SELECTOR)
next
  let ?c = "snd (iterNext (code s))"
  let ?v = "valueAt ?c (- 4)"
  assume "at ?c (- 1) = Some JUMPI \<and> isPushU (at ?c (- 2)) \<and> at ?c (- 3) = Some EQ
       \<and> isPushU (at ?c (- 4)) \<and> length ?v \<le> 4"
  then show "loopBody s =
      Inr (s\<lparr> code := ?c,
               jumps := AList.update (hexlify (replicate (4 - length ?v) 0 @ ?v))
                 (parseInt16 (hexlify (valueAt ?c (- 2)))) (jumps s) \<rparr>)"
    by (simp add: loopBody_SELECTOR)
next
  assume b: "loopBody s = Inr s' \<and> jumps s' \<noteq> jumps s"
  then have body: "loopBody s = Inr s'" and changed: "jumps s' \<noteq> jumps s" by simp_all
  let ?v = "valueAt (snd (iterNext (code s))) (- 4)"
  from body have "length ?v \<le> 4 \<and> jumps s' =
      AList.update (hexlify (replicate (4 - length ?v) 0 @ ?v))
        (parseInt16 (hexlify (valueAt (snd (iterNext (code s))) (- 2)))) (jumps s)"
  proof (cases rule: loopBody_cases)
    case (SELECTOR v)
    from zeroPad_length[OF SELECTOR(5)] SELECTOR(6) show ?thesis by simp
  qed (use changed in simp_all)
  then show "length ?v \<le> 4"
    and "jumps s' =
      AList.update (hexlify (replicate (4 - length ?v) 0 @ ?v))
        (parseInt16 (hexlify (valueAt (snd (iterNext (code s))) (- 2)))) (jumps s)"
    by simp_all
qed

theorem selector_canonical_witness:
  "abiFromBytecode ''0x8061000114604057'' = Inr [ABIFunction ''0x00000001'' True]
   \<and> length ''0x00000001'' = 10
   \<and> (\<exists>s. hasMore (code s) \<and> jumps s = [(''0x00000001'', Some 5)]
          \<and> at (snd (iterNext (code s))) (- 4) = Some 0x61 \<and> pushWidth 0x61 = 2
          \<and> valueAt (snd (iterNext (code s))) (- 4) = [0x00, 0x01]
          \<and> loopBody s
               = Inr (s\<lparr> code := snd (iterNext (code s)),
                        jumps := [(''0x00000001'', Some 64)] \<rparr>))"
proof -
  let ?bs = "[DUP1, 0x61, 0x00, 0x01, EQ, PUSH1, 0x40, JUMPI] :: byte list"
  let ?s = "\<lparr> abi = [], jumps = [(''0x00000001'', Some 5)], dests = Map.empty,
              notPayable = Map.empty, lastPush32 = [],
              code = \<lparr> bytecode = ?bs, nextStep = 4, nextPos = 7, posBuffer = [0, 1, 4, 5],
                       posBufferSize = 4 \<rparr> \<rparr>"
  let ?c = "snd (iterNext (code ?s))"
  let ?s' = "?s\<lparr> code := ?c, jumps := [(''0x00000001'', Some 64)] \<rparr>"
  have out: "abiFromBytecode ''0x8061000114604057'' = Inr [ABIFunction ''0x00000001'' True]"
    by code_simp
  have more: "hasMore (code ?s)" by code_simp
  have a1: "at ?c (- 1) = Some JUMPI" and a2: "isPushU (at ?c (- 2))"
    and a3: "at ?c (- 3) = Some EQ" and a4: "at ?c (- 4) = Some 0x61"
    and p4: "isPush 0x61" and w4: "pushWidth 0x61 = 2"
    and u4: "isPushU (at ?c (- 4))"
    by code_simp+
  have v: "valueAt ?c (- 4) = [0x00, 0x01]" by code_simp
  have d: "parseInt16 (hexlify (valueAt ?c (- 2))) = Some 64" by code_simp
  have h: "hexlify (replicate (4 - length [0x00, 0x01 :: byte]) 0 @ [0x00, 0x01]) = ''0x00000001''"
    by code_simp
  have j: "jumps ?s = [(''0x00000001'', Some 5)]" by simp
  have u: "AList.update ''0x00000001'' (Some 64) [(''0x00000001'', Some (5::nat))]
             = [(''0x00000001'', Some 64)]"
    by simp
  from selector_canonical[of "''0x8061000114604057''" "[ABIFunction ''0x00000001'' True]"
      "''0x00000001''" True ?s "0x61" ?s'] out a1 a2 a3 a4 p4 w4 u4
  have len: "length ''0x00000001'' = 10"
    and body: "loopBody ?s =
          Inr (?s\<lparr> code := ?c,
                   jumps := AList.update
                     (hexlify (replicate (4 - length (valueAt ?c (- 4))) 0 @ valueAt ?c (- 4)))
                     (parseInt16 (hexlify (valueAt ?c (- 2))))
                     (jumps ?s) \<rparr>)"
    and conv: "loopBody ?s = Inr ?s' \<and> jumps ?s' \<noteq> jumps ?s \<longrightarrow>
          jumps ?s' = AList.update
                     (hexlify (replicate (4 - length (valueAt ?c (- 4))) 0 @ valueAt ?c (- 4)))
                     (parseInt16 (hexlify (valueAt ?c (- 2))))
                     (jumps ?s)"
    by simp_all
  from body have body': "loopBody ?s = Inr ?s'"
    unfolding v d h j u .
  have "jumps ?s' \<noteq> jumps ?s" by simp
  with conv body' have "jumps ?s' = AList.update
                     (hexlify (replicate (4 - length (valueAt ?c (- 4))) 0 @ valueAt ?c (- 4)))
                     (parseInt16 (hexlify (valueAt ?c (- 2))))
                     (jumps ?s)"
    by blast
  with out more a4 w4 v body' show ?thesis
    by (intro conjI exI[of _ ?s]) simp_all
qed

subsection \<open>C5: the ring of positions\<close>

text \<open>
  C5. For every bytecode and every capacity \<open>K \<ge> 1\<close>, after \<open>m\<close> calls of \<open>next()\<close>, of
  which \<open>n\<close> decoded an instruction (\<open>n = m\<close> when every call found more bytes, and \<open>n\<close> is
  \<open>nextStep\<close>): \<open>posBuffer\<close> holds the offsets of the last \<open>min n K\<close> decoded
  instructions in order (the offset of the instruction of step \<open>i\<close> is \<open>nextPos\<close> before
  the call that decodes it), and \<open>at(-k)\<close>, for \<open>1 \<le> k \<le> min n K\<close>, is the opcode that
  the call \<open>k\<close> steps back returned, whatever the widths of the instructions between.
\<close>

theorem ring_correctness:
  fixes bs :: "byte list" and K m :: nat
  defines "c0 \<equiv> iterOf bs (Some K)"
  defines "n \<equiv> nextStep (advance m c0)"
  assumes K: "1 \<le> K"
  shows "posBuffer (advance m c0) = map (\<lambda>i. nextPos (advance i c0)) [n - min n K ..< n]
       \<and> (\<forall>k. 1 \<le> k \<and> k \<le> min n K \<longrightarrow>
             at (advance m c0) (- int k) = Some (fst (iterNext (advance (n - k) c0))))
       \<and> n \<le> m \<and> (\<forall>i<n. hasMore (advance i c0))
       \<and> ((\<forall>i<m. hasMore (advance i c0)) \<longrightarrow> n = m)"
proof -
  obtain j where j: "j \<le> m" "advance m c0 = advance j c0" "\<forall>i<j. hasMore (advance i c0)"
    by (rule advance_decoded)
  have size: "posBufferSize c0 = K" and empty: "posBuffer c0 = []"
    using K by (simp_all add: c0_def)
  from j(3) have "nextStep (advance j c0) = nextStep c0 + j" by (rule nextStep_advance)
  then have nj: "n = j" unfolding n_def j(2) by (simp add: c0_def)
  have ring: "posBuffer (advance j c0) = map (\<lambda>i. nextPos (advance i c0)) [j - min j K ..< j]"
    using posBuffer_advance[OF j(3) empty] K size by simp
  have look: "at (advance j c0) (- int k) = Some (fst (iterNext (advance (j - k) c0)))"
    if "1 \<le> k" "k \<le> min j K" for k
    using at_back[OF j(3) empty _ that(1)] that(2) K size by simp
  have all: "n = m" if "\<forall>i<m. hasMore (advance i c0)"
    using nextStep_advance[OF that] by (simp add: n_def c0_def)
  from ring look all j(1,3) show ?thesis
    by (simp add: nj j(2))
qed

theorem ring_correctness_witness:
  "posBuffer (advance 3 (iterOf [PUSH1, 0x37, PUSH4, 1, 2, 3, 4, JUMPI, STOP, STOP] (Some 2))) = [2, 7]
   \<and> at (advance 3 (iterOf [PUSH1, 0x37, PUSH4, 1, 2, 3, 4, JUMPI, STOP, STOP] (Some 2))) (- 1) = Some JUMPI
   \<and> at (advance 3 (iterOf [PUSH1, 0x37, PUSH4, 1, 2, 3, 4, JUMPI, STOP, STOP] (Some 2))) (- 2) = Some PUSH4"
proof -
  let ?bs = "[PUSH1, 0x37, PUSH4, 1, 2, 3, 4, JUMPI, STOP, STOP] :: byte list"
  let ?c = "iterOf ?bs (Some 2)"
  have n: "nextStep (advance 3 ?c) = 3" by code_simp
  have p: "map (\<lambda>i. nextPos (advance i ?c)) [3 - min 3 2 ..< 3] = [2, 7]" by code_simp
  have o1: "fst (iterNext (advance (3 - 1) ?c)) = JUMPI" by code_simp
  have o2: "fst (iterNext (advance (3 - 2) ?c)) = PUSH4" by code_simp
  from ring_correctness[where K=2 and bs="?bs" and m=3]
  have "posBuffer (advance 3 ?c) = [2, 7]"
    and "\<forall>k. 1 \<le> k \<and> k \<le> min 3 2 \<longrightarrow> at (advance 3 ?c) (- int k) = Some (fst (iterNext (advance (3 - k) ?c)))"
    unfolding n p by simp_all
  from this(1) this(2)[rule_format, of 1] this(2)[rule_format, of 2] o1 o2
  show ?thesis by simp
qed

subsection \<open>C6: event hashes\<close>

text \<open>
  C6. Every event entry that \<open>abiFromBytecode\<close> returns has a hash of exactly 66
  characters, \<open>0x\<close> and 64 lowercase hexadecimal digits. And at the head of the loop, in
  every state the extractor reaches on a bytecode, a \<open>LOG\<close> opcode about to be decoded with
  a non-empty \<open>lastPush32\<close> finds it 32 bytes long: a \<open>PUSH32\<close> cut short by the end of the
  bytecode ends the loop.
\<close>

theorem event_hash_shape:
  "(abiFromBytecode hex = Inr out \<and> ABIEvent h \<in> set out \<longrightarrow>
      length h = 66 \<and> take 2 h = ''0x'' \<and> set (drop 2 h) \<subseteq> set ''0123456789abcdef'')
   \<and> (reachable bs s \<and> hasMore (code s) \<and> isLog (fst (iterNext (code s))) \<and> lastPush32 s \<noteq> [] \<longrightarrow>
      length (lastPush32 s) = 32)"
proof (intro conjI impI)
  assume a: "abiFromBytecode hex = Inr out \<and> ABIEvent h \<in> set out"
  then obtain bs' s' where r: "reachable bs' s'" and out: "out = finish s'"
    by (auto elim: abiFromBytecode_reachable)
  with a have "ABIEvent h \<in> set (abi s')" by (simp add: finish_events)
  with abi_events[OF r] obtain T where T: "length T = 32" "h = hexlify T" by blast
  with hexlify_shape[of T]
  show "length h = 66" "take 2 h = ''0x''" "set (drop 2 h) \<subseteq> set ''0123456789abcdef''"
    by simp_all
next
  assume "reachable bs s \<and> hasMore (code s) \<and> isLog (fst (iterNext (code s))) \<and> lastPush32 s \<noteq> []"
  with lastPush32_full[of bs s] show "length (lastPush32 s) = 32" by blast
qed

theorem event_hash_shape_witness:
  "abiFromBytecode ''0x7f0102030405060708090a0b0c0d0e0f101112131415161718191a1b1c1d1e1f20a1'' = Inr [ABIEvent ''0x0102030405060708090a0b0c0d0e0f101112131415161718191a1b1c1d1e1f20'']
   \<and> length ''0x0102030405060708090a0b0c0d0e0f101112131415161718191a1b1c1d1e1f20'' = 66
   \<and> (\<exists>s. reachable (PUSH32 # map word_of_nat [1..<33] @ [LOG1]) s \<and> hasMore (code s)
          \<and> isLog (fst (iterNext (code s))) \<and> length (lastPush32 s) = 32)"
proof -
  let ?bs = "PUSH32 # map word_of_nat [1..<33] @ [LOG1] :: byte list"
  let ?s = "projr (loopBody (initState ?bs))"
  have out: "abiFromBytecode ''0x7f0102030405060708090a0b0c0d0e0f101112131415161718191a1b1c1d1e1f20a1'' = Inr [ABIEvent ''0x0102030405060708090a0b0c0d0e0f101112131415161718191a1b1c1d1e1f20'']"
    by code_simp
  have "\<not> isl (loopBody (initState ?bs))" by code_simp
  then have body: "loopBody (initState ?bs) = Inr ?s" by simp
  have "hasMore (code (initState ?bs))" by code_simp
  with reachable.start have r: "reachable ?bs ?s" using body by (rule reachable.iterate)
  have more: "hasMore (code ?s)" and log: "isLog (fst (iterNext (code ?s)))"
    and ne: "lastPush32 ?s \<noteq> []"
    by code_simp+
  from event_hash_shape[of "''0x7f0102030405060708090a0b0c0d0e0f101112131415161718191a1b1c1d1e1f20a1''" "[ABIEvent ''0x0102030405060708090a0b0c0d0e0f101112131415161718191a1b1c1d1e1f20'']" "''0x0102030405060708090a0b0c0d0e0f101112131415161718191a1b1c1d1e1f20''" ?bs ?s]
    out r more log ne
  have "length ''0x0102030405060708090a0b0c0d0e0f101112131415161718191a1b1c1d1e1f20'' = 66" and "length (lastPush32 ?s) = 32"
    by simp_all
  with out r more log show ?thesis by blast
qed

subsection \<open>C7: the PUSH32 immediate is kept\<close>

text \<open>
  C7. When the opcode decoded is \<open>LOG1\<close> to \<open>LOG4\<close> and \<open>lastPush32\<close> is not empty, the
  pass through the loop appends one event entry with the hexadecimal form of
  \<open>lastPush32\<close> and changes nothing else but the cursor: \<open>lastPush32\<close> keeps its value.
  Hence for a bytecode \<open>PUSH32 T\<close> followed by two \<open>LOG\<close> opcodes, \<open>T\<close> of 32 bytes, the
  output is exactly two event entries, both with the hash of \<open>T\<close>.
\<close>

theorem sticky_lastPush32:
  "(isLog (fst (iterNext (code s))) \<and> lastPush32 s \<noteq> [] \<longrightarrow>
      loopBody s =
        Inr (s\<lparr> code := snd (iterNext (code s)),
                 abi := abi s @ [ABIEvent (hexlify (lastPush32 s))] \<rparr>))
   \<and> (length T = 32 \<and> isLog l1 \<and> isLog l2 \<longrightarrow>
      abiFromBytecode (hexlify (PUSH32 # T @ [l1, l2]))
        = Inr [ABIEvent (hexlify T), ABIEvent (hexlify T)])"
  by (simp add: loopBody_LOG abiFromBytecode_def arrayify_hexlify run_PUSH32_two_LOGs)

theorem sticky_lastPush32_witness:
  "abiFromBytecode ''0x7f0102030405060708090a0b0c0d0e0f101112131415161718191a1b1c1d1e1f20a1a2'' = Inr [ABIEvent ''0x0102030405060708090a0b0c0d0e0f101112131415161718191a1b1c1d1e1f20'', ABIEvent ''0x0102030405060708090a0b0c0d0e0f101112131415161718191a1b1c1d1e1f20'']
   \<and> (\<exists>s. isLog (fst (iterNext (code s))) \<and> lastPush32 s = [0x2a]
          \<and> loopBody s = Inr (s\<lparr> code := snd (iterNext (code s)), abi := [ABIEvent ''0x2a''] \<rparr>))"
proof -
  let ?T = "map word_of_nat [1..<33] :: byte list"
  let ?s = "\<lparr> abi = [], jumps = [], dests = Map.empty, notPayable = Map.empty, lastPush32 = [0x2a],
              code = \<lparr> bytecode = [LOG4, STOP], nextStep = 0, nextPos = 0, posBuffer = [],
                       posBufferSize = 4 \<rparr> \<rparr>"
  have hex: "hexlify (PUSH32 # ?T @ [LOG1, 0xa2]) = ''0x7f0102030405060708090a0b0c0d0e0f101112131415161718191a1b1c1d1e1f20a1a2''"
    and hT: "hexlify ?T = ''0x0102030405060708090a0b0c0d0e0f101112131415161718191a1b1c1d1e1f20''"
    and h2: "hexlify [0x2a] = ''0x2a''"
    by code_simp+
  have len: "length ?T = 32" and l1: "isLog LOG1" and l2: "isLog 0xa2" by code_simp+
  have log: "isLog (fst (iterNext (code ?s)))" by code_simp
  from sticky_lastPush32[of ?s ?T LOG1 "0xa2"] len l1 l2 log
  have "abiFromBytecode (hexlify (PUSH32 # ?T @ [LOG1, 0xa2]))
          = Inr [ABIEvent (hexlify ?T), ABIEvent (hexlify ?T)]"
    and "loopBody ?s = Inr (?s\<lparr> code := snd (iterNext (code ?s)),
                              abi := abi ?s @ [ABIEvent (hexlify (lastPush32 ?s))] \<rparr>)"
    by simp_all
  then have "abiFromBytecode ''0x7f0102030405060708090a0b0c0d0e0f101112131415161718191a1b1c1d1e1f20a1a2'' = Inr [ABIEvent ''0x0102030405060708090a0b0c0d0e0f101112131415161718191a1b1c1d1e1f20'', ABIEvent ''0x0102030405060708090a0b0c0d0e0f101112131415161718191a1b1c1d1e1f20'']"
    and "loopBody ?s = Inr (?s\<lparr> code := snd (iterNext (code ?s)), abi := [ABIEvent ''0x2a''] \<rparr>)"
    unfolding hex hT by (simp_all add: h2)
  with log show ?thesis by fastforce
qed

subsection \<open>C8: reads past the end\<close>

text \<open>
  C8. The claim: \<open>at(p)\<close> with \<open>p\<close> at or past the end of the bytecode returns 0, the
  opcode \<open>STOP\<close>. The read \<open>bytecode[p]\<close> of the source has no guard: it gives
  \<open>undefined\<close> (here \<open>None\<close>), which equals no opcode. As amended: for every cursor and
  every \<open>p\<close> at or past the end of the bytecode, \<open>at(p)\<close> is \<open>undefined\<close>.
\<close>

theorem at_out_of_range: "int (length (bytecode c)) \<le> p \<Longrightarrow> at c p = None"
  by (simp add: at_def nthJS_def)

theorem at_out_of_range_witness:
  "int (length (bytecode (iterOf [PUSH1] None))) \<le> 1 \<and> at (iterOf [PUSH1] None) 1 = None"
  using at_out_of_range[of "iterOf [PUSH1] None" 1] by simp

theorem at_out_of_range_not_STOP: "at (iterOf [] None) 0 \<noteq> Some STOP"
  by (simp add: at_def nthJS_def iterOf_def)

subsection \<open>C9: the selector rule on a short window\<close>

text \<open>
  C9. The claim: before four steps are decoded the selector rule never matches. On the
  bytes \<open>14 60 37 57\<close> (\<open>EQ, PUSH1 37, JUMPI\<close>) the rule matches at the third step:
  \<open>at(-4)\<close> reads \<open>posBuffer[-1]\<close>, which is \<open>undefined\<close>, and \<open>isPush(undefined)\<close> is
  true. \<open>valueAt(-4)\<close> is empty, so the selector recorded is \<open>0x00000000\<close>, with
  destination \<open>0x37\<close>.
\<close>

theorem selector_rule_on_three_steps:
  "abiFromBytecode ''0x14603757'' = Inr [ABIFunction ''0x00000000'' True]
   \<and> arrayify ''0x14603757'' = Inr [EQ, PUSH1, 0x37, JUMPI]
   \<and> (case run (initState [EQ, PUSH1, 0x37, JUMPI]) of
         Inl e \<Rightarrow> False
       | Inr s \<Rightarrow> jumps s = [(''0x00000000'', Some 55)] \<and> nextStep (code s) = 3)"
  by code_simp

subsection \<open>C10: the keys of dests and notPayable\<close>

text \<open>
  C10. In every state the extractor reaches on a bytecode: every key of \<open>dests\<close> is the
  offset of a \<open>JUMPDEST\<close> byte of the bytecode that is the first byte of a decoded
  instruction; every key of \<open>notPayable\<close> is a key of \<open>dests\<close> and the three bytes behind
  it are \<open>CALLVALUE\<close>, \<open>DUP1\<close>, \<open>ISZERO\<close>; and when the opcode about to be decoded is
  \<open>JUMPDEST\<close>, \<open>pos()\<close> after the call of \<open>next()\<close> is the offset where that
  \<open>JUMPDEST\<close> stands.
\<close>

theorem jumpdest_keys:
  assumes "reachable bs s"
  shows "(\<forall>p st. dests s p = Some st \<longrightarrow>
            0 \<le> p \<and> nat p < length bs \<and> bs ! nat p = JUMPDEST
            \<and> (nat p, JUMPDEST) \<in> set (decode bs 0))
       \<and> (\<forall>p st. notPayable s p = Some st \<longrightarrow>
            p \<in> dom (dests s) \<and> nthJS bs (p + 1) = Some CALLVALUE
            \<and> nthJS bs (p + 2) = Some DUP1 \<and> nthJS bs (p + 3) = Some ISZERO)
       \<and> (hasMore (code s) \<and> fst (iterNext (code s)) = JUMPDEST \<longrightarrow>
            pos (snd (iterNext (code s))) = int (nextPos (code s))
            \<and> (nextPos (code s), JUMPDEST) \<in> set (decode bs 0)
            \<and> at (snd (iterNext (code s))) (pos (snd (iterNext (code s))) + 1)
                = nthJS bs (int (nextPos (code s)) + 1)
            \<and> at (snd (iterNext (code s))) (pos (snd (iterNext (code s))) + 2)
                = nthJS bs (int (nextPos (code s)) + 2)
            \<and> at (snd (iterNext (code s))) (pos (snd (iterNext (code s))) + 3)
                = nthJS bs (int (nextPos (code s)) + 3))"
proof (intro conjI allI impI)
  fix p st assume d: "dests s p = Some st"
  with tables_inv[OF assms] have p: "0 \<le> p" and st: "nat st < length (decode bs 0)"
    and at: "decode bs 0 ! nat st = (nat p, JUMPDEST)" by blast+
  from st at have mem: "(nat p, JUMPDEST) \<in> set (decode bs 0)"
    by (metis nth_mem)
  from decode_in_range[OF mem] p mem
  show "0 \<le> p" "nat p < length bs" "bs ! nat p = JUMPDEST" "(nat p, JUMPDEST) \<in> set (decode bs 0)"
    by simp_all
next
  fix p st assume "notPayable s p = Some st"
  with tables_inv[OF assms]
  show "p \<in> dom (dests s)" "nthJS bs (p + 1) = Some CALLVALUE"
    "nthJS bs (p + 2) = Some DUP1" "nthJS bs (p + 3) = Some ISZERO"
    by blast+
next
  assume a: "hasMore (code s) \<and> fst (iterNext (code s)) = JUMPDEST"
  then have more: "hasMore (code s)" and jd: "fst (iterNext (code s)) = JUMPDEST" by simp_all
  from pos_after_next[OF more] jd
  show p: "pos (snd (iterNext (code s))) = int (nextPos (code s))" by simp
  from assms have "bytecode (snd (iterNext (code s))) = bs" by (simp add: reachable_code)
  then show "at (snd (iterNext (code s))) (pos (snd (iterNext (code s))) + 1)
                = nthJS bs (int (nextPos (code s)) + 1)"
    and "at (snd (iterNext (code s))) (pos (snd (iterNext (code s))) + 2)
                = nthJS bs (int (nextPos (code s)) + 2)"
    and "at (snd (iterNext (code s))) (pos (snd (iterNext (code s))) + 3)
                = nthJS bs (int (nextPos (code s)) + 3)"
    by (simp_all add: p at_def)
  from jd more assms have "bs ! nextPos (code s) = JUMPDEST"
    by (simp add: iterNext_more reachable_code)
  with reachable_current[OF assms more]
  show "(nextPos (code s), JUMPDEST) \<in> set (decode bs 0)"
    by (metis nth_mem)
qed

theorem jumpdest_keys_witness:
  "\<exists>s t. reachable [PUSH1, JUMPDEST, JUMPDEST, CALLVALUE, DUP1, ISZERO] s
       \<and> hasMore (code s) \<and> fst (iterNext (code s)) = JUMPDEST
       \<and> pos (snd (iterNext (code s))) = 2
       \<and> reachable [PUSH1, JUMPDEST, JUMPDEST, CALLVALUE, DUP1, ISZERO] t
       \<and> dests t 2 = Some 1 \<and> notPayable t 2 = Some 1 \<and> dests t 1 = None
       \<and> (2, JUMPDEST) \<in> set (decode [PUSH1, JUMPDEST, JUMPDEST, CALLVALUE, DUP1, ISZERO] 0)"
proof -
  let ?bs = "[PUSH1, JUMPDEST, JUMPDEST, CALLVALUE, DUP1, ISZERO] :: byte list"
  let ?s = "projr (loopBody (initState ?bs))"
  let ?t = "projr (run (initState ?bs))"
  have "\<not> isl (loopBody (initState ?bs))" by code_simp
  then have body: "loopBody (initState ?bs) = Inr ?s" by simp
  have "hasMore (code (initState ?bs))" by code_simp
  with reachable.start have rs: "reachable ?bs ?s" using body by (rule reachable.iterate)
  have "\<not> isl (run (initState ?bs))" by code_simp
  then have "run (initState ?bs) = Inr ?t" by simp
  from run_reachable[OF reachable.start this] have rt: "reachable ?bs ?t" by simp
  have more: "hasMore (code ?s)" and jd: "fst (iterNext (code ?s)) = JUMPDEST"
    and np: "nextPos (code ?s) = 2"
    and d2: "dests ?t 2 = Some 1" and n2: "notPayable ?t 2 = Some 1" and d1: "dests ?t 1 = None"
    by code_simp+
  from jumpdest_keys[OF rs] more jd np
  have "pos (snd (iterNext (code ?s))) = 2" by simp
  moreover from jumpdest_keys[OF rt] d2
  have "(2, JUMPDEST) \<in> set (decode ?bs 0)" by fastforce
  ultimately show ?thesis
    using rs rt more jd d2 n2 d1 by blast
qed

end
